theory Spec2Isabelle
  imports Main "HOL-Library.Word"
begin

unbundle bit_operations_syntax

section \<open>Python values\<close>

text \<open>
  A \<open>bytes\<close> object is a list of octets. A \<open>str\<close> is the list of its Unicode code points
  (Python keeps every value below \<open>0x110000\<close>, lone surrogates included). Exceptions are
  values of \<open>error\<close>; a function that can raise returns \<open>error + 'a\<close>.
\<close>

type_synonym byte = "8 word"
type_synonym bytes = "byte list"
type_synonym str = "nat list"

datatype error =
    AssertionError
  | ZeroDivisionError
  | UnicodeEncodeError
  | UnicodeDecodeError
  | ValueError_not_enough_values
  | ValueError_too_many_values
  | ValueError

text \<open>
  \<open>ValueError_not_enough_values\<close> and \<open>ValueError_too_many_values\<close> are the two
  \<open>ValueError\<close>s of a failed tuple unpacking; plain \<open>ValueError\<close> is what the elliptic
  curve and cipher libraries raise on a bad scalar, key, IV or data length.
\<close>

subsection \<open>\<open>str.encode('utf-8')\<close> and \<open>bytes.decode('utf-8')\<close>\<close>

definition encode_code_point :: "nat \<Rightarrow> bytes option" where
  "encode_code_point c =
     (if c < 0x80 then Some [word_of_nat c]
      else if c < 0x800 then
        Some [word_of_nat (0xC0 + c div 64), word_of_nat (0x80 + c mod 64)]
      else if 0xD800 \<le> c \<and> c \<le> 0xDFFF then None
      else if c < 0x10000 then
        Some [word_of_nat (0xE0 + c div 4096), word_of_nat (0x80 + c div 64 mod 64),
              word_of_nat (0x80 + c mod 64)]
      else if c < 0x110000 then
        Some [word_of_nat (0xF0 + c div 262144), word_of_nat (0x80 + c div 4096 mod 64),
              word_of_nat (0x80 + c div 64 mod 64), word_of_nat (0x80 + c mod 64)]
      else None)"

fun str_encode :: "str \<Rightarrow> error + bytes" where
  "str_encode [] = Inr []"
| "str_encode (c # cs) =
     (case encode_code_point c of
        None \<Rightarrow> Inl UnicodeEncodeError
      | Some bs \<Rightarrow> (case str_encode cs of Inl e \<Rightarrow> Inl e | Inr rest \<Rightarrow> Inr (bs @ rest)))"

definition is_continuation :: "byte \<Rightarrow> bool" where
  "is_continuation b = (0x80 \<le> unat b \<and> unat b < 0xC0)"

definition accept_code_point :: "nat \<Rightarrow> nat \<Rightarrow> bytes \<Rightarrow> (nat \<times> bytes) option" where
  "accept_code_point lowest c rest =
     (if lowest \<le> c \<and> c < 0x110000 \<and> \<not> (0xD800 \<le> c \<and> c \<le> 0xDFFF)
      then Some (c, rest) else None)"

definition decode_code_point :: "bytes \<Rightarrow> (nat \<times> bytes) option" where
  "decode_code_point bs =
     (case bs of
        [] \<Rightarrow> None
      | b0 # r0 \<Rightarrow>
          if unat b0 < 0x80 then Some (unat b0, r0)
          else if unat b0 < 0xC0 then None
          else if unat b0 < 0xE0 then
            (case r0 of
               b1 # r1 \<Rightarrow>
                 if is_continuation b1
                 then accept_code_point 0x80
                        ((unat b0 - 0xC0) * 64 + (unat b1 - 0x80)) r1
                 else None
             | _ \<Rightarrow> None)
          else if unat b0 < 0xF0 then
            (case r0 of
               b1 # b2 # r2 \<Rightarrow>
                 if is_continuation b1 \<and> is_continuation b2
                 then accept_code_point 0x800
                        ((unat b0 - 0xE0) * 4096 + (unat b1 - 0x80) * 64 + (unat b2 - 0x80)) r2
                 else None
             | _ \<Rightarrow> None)
          else if unat b0 < 0xF8 then
            (case r0 of
               b1 # b2 # b3 # r3 \<Rightarrow>
                 if is_continuation b1 \<and> is_continuation b2 \<and> is_continuation b3
                 then accept_code_point 0x10000
                        ((unat b0 - 0xF0) * 262144 + (unat b1 - 0x80) * 4096
                          + (unat b2 - 0x80) * 64 + (unat b3 - 0x80)) r3
                 else None
             | _ \<Rightarrow> None)
          else None)"

function bytes_decode :: "bytes \<Rightarrow> error + str" where
  "bytes_decode bs =
     (if bs = [] then Inr []
      else case decode_code_point bs of
             None \<Rightarrow> Inl UnicodeDecodeError
           | Some (c, rest) \<Rightarrow>
               (case bytes_decode rest of Inl e \<Rightarrow> Inl e | Inr cs \<Rightarrow> Inr (c # cs)))"
  by pat_completeness auto
termination
  by (relation "measure length")
     (auto simp: decode_code_point_def accept_code_point_def split: list.splits if_splits)

declare bytes_decode.simps [simp del]

subsection \<open>\<open>bytes.hex()\<close> and \<open>bytes.split(sep)\<close> for a one-byte separator\<close>

definition hex_digit :: "nat \<Rightarrow> nat" where
  "hex_digit d = (if d < 10 then 48 + d else 87 + d)"

definition bytes_hex :: "bytes \<Rightarrow> str" where
  "bytes_hex bs = concat (map (\<lambda>b. [hex_digit (unat b div 16), hex_digit (unat b mod 16)]) bs)"

fun bytes_split :: "byte \<Rightarrow> bytes \<Rightarrow> bytes list" where
  "bytes_split sep [] = [[]]"
| "bytes_split sep (b # bs) =
     (if b = sep then [] # bytes_split sep bs
      else case bytes_split sep bs of
             [] \<Rightarrow> [[b]]
           | piece # pieces \<Rightarrow> (b # piece) # pieces)"

subsection \<open>\<open>Cryptodome.Random.get_random_bytes\<close>\<close>

text \<open>
  The random source is a parameter: an endless supply of octets, of which a call takes the
  first \<open>n\<close>. Every byte string of length \<open>n\<close> is the draw of some supply.
\<close>

definition get_random_bytes :: "(nat \<Rightarrow> byte) \<Rightarrow> nat \<Rightarrow> bytes" where
  "get_random_bytes rng n = map rng [0..<n]"

section \<open>derivablekey.py\<close>

definition FIELD_ORDER :: int where
  "FIELD_ORDER = 2 ^ 256"

text \<open>
  \<open>int_to_string\<close>: past the assertion \<open>x\<close> is not negative, so the loop variable is a
  natural number; \<open>result\<close> is the list the loop appends to, reversed afterwards.
\<close>

function int_to_string_loop :: "nat \<Rightarrow> bytes \<Rightarrow> bytes" where
  "int_to_string_loop x result =
     (if x \<noteq> 0
      then int_to_string_loop (drop_bit 8 x) (result @ [word_of_nat (x AND 0xFF)])
      else result)"
  by pat_completeness auto
termination
  by (relation "measure (\<lambda>(x, result). x)") (auto simp: drop_bit_eq_div)

declare int_to_string_loop.simps [simp del]

definition int_to_string :: "int \<Rightarrow> error + bytes" where
  "int_to_string x =
     (if \<not> x \<ge> 0 then Inl AssertionError
      else if x = 0 then Inr [0]
      else Inr (rev (int_to_string_loop (nat x) [])))"

definition string_to_int :: "bytes \<Rightarrow> int" where
  "string_to_int s = foldl (\<lambda>result c. 256 * result + uint c) 0 s"

text \<open>
  \<open>random_padding\<close>; \<open>block_size\<close> is a natural number (the only caller passes 16), and
  \<open>len(data) % 0\<close> raises.
\<close>

definition random_padding :: "(nat \<Rightarrow> byte) \<Rightarrow> bytes \<Rightarrow> nat \<Rightarrow> bool \<Rightarrow> error + bytes" where
  "random_padding rng data block_size pad_with_zeros =
     (if block_size = 0 then Inl ZeroDivisionError
      else
        let padding_len = block_size - length data mod block_size;
            padding = (if pad_with_zeros then replicate padding_len 0
                       else get_random_bytes rng padding_len)
        in Inr (data @ padding))"

record DerivableKey =
  seed :: bytes

text \<open>
  \<open>__init__\<close> with \<open>seed\<close> given. (With \<open>seed=None\<close> the seed comes from the BIP39 module,
  which none of the functions below calls.)
\<close>

definition DerivableKey_init :: "bytes \<Rightarrow> DerivableKey" where
  "DerivableKey_init s = \<lparr>seed = s\<rparr>"

text \<open>
  The libraries are parameters.
  \<^item> \<open>point\<close>: \<open>PrivateKey(secret).public_key.format(compressed=False)\<close> of coincurve, on
    the secret's bytes (\<open>from_hex\<close> undoes \<open>hex()\<close>); it raises on a scalar outside the group.
  \<^item> \<open>sha256\<close>: \<open>hashlib.sha256(data).digest()\<close>.
  \<^item> \<open>hmac_sha512 key msg\<close>: \<open>hmac.new(key, msg, sha512).digest()\<close>.
  \<^item> \<open>cbc_encrypt key iv data\<close>, \<open>cbc_decrypt key iv data\<close>:
    \<open>AES.new(key, AES.MODE_CBC, iv=iv).encrypt(data)\<close> and \<open>.decrypt(data)\<close>, which raise on a bad
    key, IV or data length.
\<close>

definition to_pubkey :: "(bytes \<Rightarrow> error + bytes) \<Rightarrow> DerivableKey \<Rightarrow> error + bytes" where
  "to_pubkey point self = point (take 32 (seed self))"

definition to_aes_key ::
  "(bytes \<Rightarrow> error + bytes) \<Rightarrow> (bytes \<Rightarrow> bytes) \<Rightarrow> DerivableKey \<Rightarrow> error + bytes" where
  "to_aes_key point sha256 self =
     (case to_pubkey point self of Inl e \<Rightarrow> Inl e | Inr pubkey \<Rightarrow> Inr (sha256 pubkey))"

definition derive ::
  "(bytes \<Rightarrow> error + bytes) \<Rightarrow> (bytes \<Rightarrow> bytes \<Rightarrow> bytes) \<Rightarrow> DerivableKey \<Rightarrow> str
     \<Rightarrow> error + DerivableKey" where
  "derive point hmac_sha512 self s =
     (case to_pubkey point self of
        Inl e \<Rightarrow> Inl e
      | Inr K \<Rightarrow>
          let data = bytes_hex K @ s in
          (case str_encode data of
             Inl e \<Rightarrow> Inl e
           | Inr msg \<Rightarrow>
               let I = hmac_sha512 (drop 32 (seed self)) msg;
                   IL = take 32 I;
                   IR = drop 32 I;
                   ks_int = (string_to_int IL + string_to_int (take 32 (seed self)))
                              mod FIELD_ORDER
               in (case int_to_string ks_int of
                     Inl e \<Rightarrow> Inl e
                   | Inr ks \<Rightarrow> let cs = IR in Inr (DerivableKey_init (ks @ cs)))))"

definition encrypt ::
  "(bytes \<Rightarrow> bytes \<Rightarrow> bytes \<Rightarrow> error + bytes) \<Rightarrow> (nat \<Rightarrow> byte) \<Rightarrow> bytes \<Rightarrow> str \<Rightarrow> bool
     \<Rightarrow> bytes option \<Rightarrow> error + bytes" where
  "encrypt cbc_encrypt rng aes_key data pad_with_zeroes iv =
     (if length aes_key \<noteq> 32 then Inl AssertionError
      else case str_encode (data @ map of_char '' '') of
        Inl e \<Rightarrow> Inl e
      | Inr encoded \<Rightarrow>
          (case random_padding rng encoded 16 pad_with_zeroes of
             Inl e \<Rightarrow> Inl e
           | Inr padded \<Rightarrow>
               (case (case iv of
                        None \<Rightarrow> str_encode (map of_char ''Bismuth BGVP IV.'')
                      | Some v \<Rightarrow> Inr v) of
                  Inl e \<Rightarrow> Inl e
                | Inr iv' \<Rightarrow> cbc_encrypt aes_key iv' padded)))"

definition decrypt ::
  "(bytes \<Rightarrow> bytes \<Rightarrow> bytes \<Rightarrow> error + bytes) \<Rightarrow> bytes \<Rightarrow> bytes \<Rightarrow> bytes option
     \<Rightarrow> error + str" where
  "decrypt cbc_decrypt aes_key data iv =
     (if length aes_key \<noteq> 32 then Inl AssertionError
      else case (case iv of
                   None \<Rightarrow> str_encode (map of_char ''Bismuth BGVP IV.'')
                 | Some v \<Rightarrow> Inr v) of
        Inl e \<Rightarrow> Inl e
      | Inr iv' \<Rightarrow>
          (case cbc_decrypt aes_key iv' data of
             Inl e \<Rightarrow> Inl e
           | Inr clear \<Rightarrow>
               (case bytes_split 0x20 clear of
                  [] \<Rightarrow> Inl ValueError_not_enough_values
                | [_] \<Rightarrow> Inl ValueError_not_enough_values
                | [clear', _] \<Rightarrow> bytes_decode clear'
                | _ \<Rightarrow> Inl ValueError_too_many_values)))"


section \<open>Auxiliary notions\<close>

text \<open>The number a byte string denotes when read least significant byte first.\<close>

fun le_value :: "bytes \<Rightarrow> nat" where
  "le_value [] = 0"
| "le_value (b # bs) = unat b + 256 * le_value bs"

text \<open>
  The bytes of the ASCII text \<open>Bismuth BGVP IV.\<close>, and the IV a call works with: the one
  passed, or these bytes when none is passed.
\<close>

definition default_iv :: bytes where
  "default_iv = [0x42, 0x69, 0x73, 0x6D, 0x75, 0x74, 0x68, 0x20, 0x42, 0x47, 0x56, 0x50, 0x20,
                 0x49, 0x56, 0x2E]"

definition iv_used :: "bytes option \<Rightarrow> bytes" where
  "iv_used iv = (case iv of None \<Rightarrow> default_iv | Some v \<Rightarrow> v)"

text \<open>
  A stand-in for the cipher library in examples: it checks the lengths the library checks
  and masks every byte with the first byte of the key. Applying it twice gives the data back.
\<close>

definition xor_cipher :: "bytes \<Rightarrow> bytes \<Rightarrow> bytes \<Rightarrow> error + bytes" where
  "xor_cipher key iv data =
     (if length key = 32 then
        if length iv = 16 then
          if length data mod 16 = 0 then Inr (map (\<lambda>b. b XOR hd key) data)
          else Inl ValueError
        else Inl ValueError
      else Inl ValueError)"

text \<open>
  Byte strings written in hexadecimal, as \<open>bytes.fromhex\<close> reads them, and the bytes of an
  ASCII literal.
\<close>

definition hex_value :: "char \<Rightarrow> nat" where
  "hex_value c = (if of_char c < (58::nat) then of_char c - 48 else of_char c - 87)"

fun bytes_fromhex :: "string \<Rightarrow> bytes" where
  "bytes_fromhex (a # b # rest) = word_of_nat (16 * hex_value a + hex_value b) # bytes_fromhex rest"
| "bytes_fromhex _ = []"

definition ascii :: "string \<Rightarrow> bytes" where
  "ascii cs = map of_char cs"

text \<open>
  The seed and the public key of \<open>tests/test_derivable.py\<close>, and values of the curve
  library and of HMAC-SHA512: the public keys of the test seed's scalar and of the scalar 1
  (the generator of secp256k1), and the digests, keyed with the test seed's chain code, of
  the hexadecimal public key followed by \<open>Bis_test_address1\<close> and by
  \<open>Bis_test_address66\<close>, which the examples below derive from.
\<close>

definition TEST_SEED :: bytes where
  "TEST_SEED = bytes_fromhex
     ''95a7ecb56bda5eba808eec2407b418002b824c6c1cb159ec44b8371405629f8429419e98e1b67fc6367368f5d82871a501bbc655a62d31e8391411d7a6e74b86''"

definition TEST_PUBKEY_HEX :: string where
  "TEST_PUBKEY_HEX =
     ''0418b9908d43f503ae8ed3128c35edd8e0b9350c01a389bf5d83aece4822722b6223dbfaec15801253d658356836802a43c401fed1415a312f1a09f52d96a52ae4''"

definition test_point :: "bytes \<Rightarrow> error + bytes" where
  "test_point secret =
     (if secret = take 32 TEST_SEED then Inr (bytes_fromhex TEST_PUBKEY_HEX)
      else if secret = replicate 31 0 @ [1] then
        Inr (bytes_fromhex
          ''0479be667ef9dcbbac55a06295ce870b07029bfcdb2dce28d959f2815b16f81798483ada7726a3c4655da4fbfc0e1108a8fd17b448a68554199c47d08ffb10d4b8'')
      else Inl ValueError)"

definition test_hmac_sha512 :: "bytes \<Rightarrow> bytes \<Rightarrow> bytes" where
  "test_hmac_sha512 key msg =
     (if key = drop 32 TEST_SEED then
        if msg = ascii (TEST_PUBKEY_HEX @ ''Bis_test_address1'') then
          bytes_fromhex
            ''302c59827f6951917978ccab0abeca2d6a24f3a6502887bf2eab4cfb0c27ff3b6671d081ea1f89f13aad09c1a92dabd62eb1c0e81b701f8116b7401a30a98867''
        else if msg = ascii (TEST_PUBKEY_HEX @ ''Bis_test_address66'') then
          bytes_fromhex
            ''6a8baac207e01e90a2994402b4588ffe24c29206514a6a935508d46e96917ed01a828119f72d3f7dbead5d7a3d000224eddc3d00887d13b0781cc95e80d02193''
        else []
      else [])"

section \<open>\<open>int_to_string\<close> and \<open>string_to_int\<close>\<close>

lemma and_255_mod: "(x::nat) AND 0xFF = x mod 256"
  using take_bit_eq_mask [of 8 x] by (simp add: take_bit_eq_mod mask_eq_exp_minus_1)

lemma int_to_string_loop_step:
  "x \<noteq> 0 \<Longrightarrow>
   int_to_string_loop x result = int_to_string_loop (x div 256) (result @ [word_of_nat (x mod 256)])"
  by (subst int_to_string_loop.simps) (simp add: drop_bit_eq_div and_255_mod)

lemma int_to_string_loop_zero: "int_to_string_loop 0 result = result"
  by (subst int_to_string_loop.simps) simp

lemma le_value_append: "le_value (xs @ ys) = le_value xs + 256 ^ length xs * le_value ys"
  by (induction xs) (simp_all add: algebra_simps)

lemma unat_byte_of_mod: "unat (word_of_nat (x mod 256) :: byte) = x mod 256"
  by (simp add: unat_of_nat)

lemma le_value_loop:
  "le_value (int_to_string_loop x result) = le_value result + 256 ^ length result * x"
proof (induction x arbitrary: result rule: less_induct)
  case (less x)
  show ?case
  proof (cases "x = 0")
    case True
    then show ?thesis by (simp add: int_to_string_loop_zero)
  next
    case False
    then have "x div 256 < x" by simp
    let ?n = "length result"
    have "le_value (int_to_string_loop x result) =
          le_value (result @ [word_of_nat (x mod 256)]) + 256 ^ Suc ?n * (x div 256)"
      using less.IH [OF \<open>x div 256 < x\<close>, of "result @ [word_of_nat (x mod 256)]"] False
      by (simp add: int_to_string_loop_step)
    also have "\<dots> = le_value result + (256 ^ ?n * (x mod 256) + 256 ^ ?n * (256 * (x div 256)))"
      by (simp add: le_value_append unat_byte_of_mod)
    also have "\<dots> = le_value result + 256 ^ ?n * (x mod 256 + 256 * (x div 256))"
      by (simp only: distrib_left)
    finally show ?thesis by simp
  qed
qed

lemma string_to_int_snoc: "string_to_int (s @ [c]) = 256 * string_to_int s + uint c"
  by (simp add: string_to_int_def)

lemma string_to_int_rev: "string_to_int (rev bs) = int (le_value bs)"
  by (induction bs) (simp_all add: string_to_int_snoc, simp add: string_to_int_def)

lemma loop_last_nonzero:
  "x \<noteq> 0 \<Longrightarrow> int_to_string_loop x result \<noteq> [] \<and> last (int_to_string_loop x result) \<noteq> 0"
proof (induction x arbitrary: result rule: less_induct)
  case (less x)
  show ?case
  proof (cases "x div 256 = 0")
    case True
    with less.prems have small: "x < 256" and "x mod 256 = x" by auto
    have "unat (word_of_nat x :: byte) = x" using small by (simp add: unat_of_nat)
    with less.prems have "(word_of_nat x :: byte) \<noteq> 0" by (metis unat_0)
    with less.prems True \<open>x mod 256 = x\<close> show ?thesis
      by (simp add: int_to_string_loop_step int_to_string_loop_zero)
  next
    case False
    with less.prems have "x div 256 < x" by simp
    from less.IH [OF this False] less.prems show ?thesis
      by (simp add: int_to_string_loop_step)
  qed
qed

text \<open>
  C9. For every integer \<open>x \<ge> 0\<close>, \<open>string_to_int (int_to_string x) = x\<close>, and
  \<open>int_to_string x\<close> is the minimal big-endian encoding: its first byte is not zero when
  \<open>x > 0\<close>, and it is the single byte \<open>0x00\<close> when \<open>x = 0\<close>.
\<close>

theorem int_to_string_roundtrip_minimal:
  "0 \<le> x \<Longrightarrow>
   (\<exists>s. int_to_string x = Inr s \<and> string_to_int s = x \<and> s \<noteq> []
        \<and> (0 < x \<longrightarrow> hd s \<noteq> 0) \<and> (x = 0 \<longrightarrow> s = [0]))"
proof (cases "x = 0")
  case True
  then show ?thesis by (simp add: int_to_string_def string_to_int_def)
next
  case False
  assume "0 \<le> x"
  with False have pos: "nat x \<noteq> 0" by simp
  let ?l = "int_to_string_loop (nat x) []"
  from loop_last_nonzero [OF pos, of "[]"] have ne: "?l \<noteq> []" and "last ?l \<noteq> 0" by simp_all
  then have "hd (rev ?l) \<noteq> 0" by (simp add: hd_rev)
  moreover have "string_to_int (rev ?l) = x"
    using \<open>0 \<le> x\<close> by (simp add: string_to_int_rev le_value_loop)
  ultimately show ?thesis using False \<open>0 \<le> x\<close> ne by (simp add: int_to_string_def)
qed

theorem int_to_string_roundtrip_minimal_witness:
  "(0::int) \<le> 258 \<and> (0::int) < 258 \<and> int_to_string 258 = Inr [1, 2]
   \<and> string_to_int [1, 2] = 258 \<and> hd [1, 2 :: byte] \<noteq> 0
   \<and> int_to_string 0 = Inr [0] \<and> string_to_int [0] = 0"
proof -
  have e: "int_to_string 258 = Inr [1, 2]" by code_simp
  from int_to_string_roundtrip_minimal [of 258] e
  have "string_to_int [1, 2] = 258 \<and> hd [1, 2 :: byte] \<noteq> 0" by simp
  moreover from int_to_string_roundtrip_minimal [of 0]
  have "int_to_string 0 = Inr [0] \<and> string_to_int [0] = 0" by auto
  ultimately show ?thesis using e by simp
qed

section \<open>UTF-8\<close>

lemma unat_byte: "n < 256 \<Longrightarrow> unat (word_of_nat n :: byte) = n"
  by (simp add: unat_of_nat)

lemma split_64: "(d::nat) div 64 * (64 * k) + d mod 64 * k = d * k"
proof -
  have "d div 64 * (64 * k) + d mod 64 * k = (d div 64 * 64 + d mod 64) * k"
    by (simp only: distrib_right mult.assoc)
  then show ?thesis by (simp only: div_mult_mod_eq)
qed

lemma split3: "(c::nat) div 4096 * 4096 + c div 64 mod 64 * 64 + c mod 64 = c"
proof -
  have "c div 4096 = c div 64 div 64" by (simp add: div_mult2_eq)
  then have "c div 4096 * 4096 + c div 64 mod 64 * 64 = c div 64 * 64"
    using split_64 [of "c div 64" 64] by simp
  then show ?thesis by simp
qed

lemma split4:
  "(c::nat) div 262144 * 262144 + c div 4096 mod 64 * 4096 + c div 64 mod 64 * 64 + c mod 64 = c"
proof -
  have "c div 262144 = c div 4096 div 64" by (simp add: div_mult2_eq)
  then have "c div 262144 * 262144 + c div 4096 mod 64 * 4096 = c div 4096 * 4096"
    using split_64 [of "c div 4096" 4096] by simp
  then show ?thesis using split3 [of c] by simp
qed

lemma decode_1:
  "unat b0 < 0x80 \<Longrightarrow> decode_code_point (b0 # rest) = Some (unat b0, rest)"
  by (simp add: decode_code_point_def)

lemma decode_2:
  assumes "unat b0 = 0xC0 + h" "h < 32" "unat b1 = 0x80 + l" "l < 64" "0x80 \<le> h * 64 + l"
  shows "decode_code_point (b0 # b1 # rest) = Some (h * 64 + l, rest)"
  using assms by (simp add: decode_code_point_def is_continuation_def accept_code_point_def)

lemma decode_3:
  assumes "unat b0 = 0xE0 + h" "h < 16" "unat b1 = 0x80 + m" "m < 64" "unat b2 = 0x80 + l" "l < 64"
    and "0x800 \<le> h * 4096 + m * 64 + l"
    and "\<not> (0xD800 \<le> h * 4096 + m * 64 + l \<and> h * 4096 + m * 64 + l \<le> 0xDFFF)"
  shows "decode_code_point (b0 # b1 # b2 # rest) = Some (h * 4096 + m * 64 + l, rest)"
  using assms by (simp add: decode_code_point_def is_continuation_def accept_code_point_def)

lemma decode_4:
  assumes "unat b0 = 0xF0 + h" "h < 8" "unat b1 = 0x80 + m" "m < 64" "unat b2 = 0x80 + n" "n < 64"
    and "unat b3 = 0x80 + l" "l < 64"
    and "0x10000 \<le> h * 262144 + m * 4096 + n * 64 + l"
    and "h * 262144 + m * 4096 + n * 64 + l < 0x110000"
  shows "decode_code_point (b0 # b1 # b2 # b3 # rest)
         = Some (h * 262144 + m * 4096 + n * 64 + l, rest)"
  using assms by (simp add: decode_code_point_def is_continuation_def accept_code_point_def)

lemma decode_encode_code_point:
  assumes "encode_code_point c = Some bs"
  shows "decode_code_point (bs @ rest) = Some (c, rest)"
proof -
  consider (a) "c < 0x80" | (b) "0x80 \<le> c" "c < 0x800"
    | (c) "0x800 \<le> c" "c < 0x10000" "\<not> (0xD800 \<le> c \<and> c \<le> 0xDFFF)"
    | (d) "0x10000 \<le> c" "c < 0x110000"
    using assms by (auto simp: encode_code_point_def split: if_splits)
  then show ?thesis
  proof cases
    case a
    then have "bs = [word_of_nat c]" using assms by (simp add: encode_code_point_def)
    moreover have "unat (word_of_nat c :: byte) = c" by (rule unat_byte) (use a in simp)
    ultimately show ?thesis using a by (simp add: decode_1)
  next
    case b
    then have bs: "bs = [word_of_nat (0xC0 + c div 64), word_of_nat (0x80 + c mod 64)]"
      using assms by (auto simp: encode_code_point_def split: if_splits)
    have h: "c div 64 < 32" using b by simp
    have l: "c mod 64 < 64" by simp
    have v: "c div 64 * 64 + c mod 64 = c" by simp
    have "decode_code_point (word_of_nat (0xC0 + c div 64) # word_of_nat (0x80 + c mod 64) # rest)
          = Some (c div 64 * 64 + c mod 64, rest)"
    proof (rule decode_2)
      show "unat (word_of_nat (0xC0 + c div 64) :: byte) = 0xC0 + c div 64"
        by (rule unat_byte) (use h in simp)
      show "unat (word_of_nat (0x80 + c mod 64) :: byte) = 0x80 + c mod 64"
        by (rule unat_byte) (use l in simp)
    qed (use h l b in simp_all)
    with bs v show ?thesis by simp
  next
    case c
    then have bs: "bs = [word_of_nat (0xE0 + c div 4096), word_of_nat (0x80 + c div 64 mod 64),
              word_of_nat (0x80 + c mod 64)]"
      using assms by (auto simp: encode_code_point_def split: if_splits)
    have h: "c div 4096 < 16" using c by simp
    have m: "c div 64 mod 64 < 64" and l: "c mod 64 < 64" by simp_all
    note v = split3 [of c]
    have "decode_code_point (word_of_nat (0xE0 + c div 4096)
            # word_of_nat (0x80 + c div 64 mod 64) # word_of_nat (0x80 + c mod 64) # rest)
          = Some (c div 4096 * 4096 + c div 64 mod 64 * 64 + c mod 64, rest)"
    proof (rule decode_3)
      show "unat (word_of_nat (0xE0 + c div 4096) :: byte) = 0xE0 + c div 4096"
        by (rule unat_byte) (use h in simp)
      show "unat (word_of_nat (0x80 + c div 64 mod 64) :: byte) = 0x80 + c div 64 mod 64"
        by (rule unat_byte) (use m in simp)
      show "unat (word_of_nat (0x80 + c mod 64) :: byte) = 0x80 + c mod 64"
        by (rule unat_byte) (use l in simp)
    qed (unfold v, use h m l c in auto)
    with bs v show ?thesis by simp
  next
    case d
    then have bs: "bs = [word_of_nat (0xF0 + c div 262144), word_of_nat (0x80 + c div 4096 mod 64),
              word_of_nat (0x80 + c div 64 mod 64), word_of_nat (0x80 + c mod 64)]"
      using assms by (auto simp: encode_code_point_def split: if_splits)
    have h: "c div 262144 < 8" using d by simp
    have m: "c div 4096 mod 64 < 64" and n: "c div 64 mod 64 < 64" and l: "c mod 64 < 64"
      by simp_all
    note v = split4 [of c]
    have "decode_code_point (word_of_nat (0xF0 + c div 262144)
            # word_of_nat (0x80 + c div 4096 mod 64) # word_of_nat (0x80 + c div 64 mod 64)
            # word_of_nat (0x80 + c mod 64) # rest)
          = Some (c div 262144 * 262144 + c div 4096 mod 64 * 4096 + c div 64 mod 64 * 64
                  + c mod 64, rest)"
    proof (rule decode_4)
      show "unat (word_of_nat (0xF0 + c div 262144) :: byte) = 0xF0 + c div 262144"
        by (rule unat_byte) (use h in simp)
      show "unat (word_of_nat (0x80 + c div 4096 mod 64) :: byte) = 0x80 + c div 4096 mod 64"
        by (rule unat_byte) (use m in simp)
      show "unat (word_of_nat (0x80 + c div 64 mod 64) :: byte) = 0x80 + c div 64 mod 64"
        by (rule unat_byte) (use n in simp)
      show "unat (word_of_nat (0x80 + c mod 64) :: byte) = 0x80 + c mod 64"
        by (rule unat_byte) (use l in simp)
    qed (unfold v, use h m n l d in auto)
    with bs v show ?thesis by simp
  qed
qed

lemma encode_code_point_nonempty: "encode_code_point c = Some bs \<Longrightarrow> bs \<noteq> []"
  by (auto simp: encode_code_point_def split: if_splits)

lemma bytes_decode_Nil: "bytes_decode [] = Inr []"
  by (subst bytes_decode.simps) simp

lemma bytes_decode_step:
  "decode_code_point bs = Some (c, rest) \<Longrightarrow> bytes_decode rest = Inr cs \<Longrightarrow>
   bytes_decode bs = Inr (c # cs)"
  by (subst bytes_decode.simps) (auto simp: decode_code_point_def)

lemma bytes_decode_str_encode: "str_encode p = Inr bs \<Longrightarrow> bytes_decode bs = Inr p"
proof (induction p arbitrary: bs)
  case Nil
  then show ?case by (simp add: bytes_decode_Nil)
next
  case (Cons c cs)
  from Cons.prems obtain b rest where
    b: "encode_code_point c = Some b" and rest: "str_encode cs = Inr rest" and bs: "bs = b @ rest"
    by (auto split: option.splits sum.splits)
  from Cons.IH [OF rest] decode_encode_code_point [OF b, of rest] bs show ?case
    by (simp add: bytes_decode_step)
qed

lemma str_encode_append:
  "str_encode p = Inr a \<Longrightarrow> str_encode q = Inr b \<Longrightarrow> str_encode (p @ q) = Inr (a @ b)"
  by (induction p arbitrary: a) (auto split: option.splits sum.splits)

lemma str_encode_space: "str_encode (map of_char '' '') = Inr [0x20]"
  by (simp add: encode_code_point_def)

lemma str_encode_add_space:
  "str_encode p = Inr bs \<Longrightarrow> str_encode (p @ map of_char '' '') = Inr (bs @ [0x20])"
  by (rule str_encode_append [OF _ str_encode_space])

lemma str_encode_default_iv:
  "str_encode (map of_char ''Bismuth BGVP IV.'') =
     Inr [0x42, 0x69, 0x73, 0x6D, 0x75, 0x74, 0x68, 0x20, 0x42, 0x47, 0x56, 0x50, 0x20, 0x49,
          0x56, 0x2E]"
  by (simp add: encode_code_point_def)

lemma byte_not_space: "n < 256 \<Longrightarrow> n \<noteq> 32 \<Longrightarrow> (word_of_nat n :: byte) \<noteq> 0x20"
proof
  assume n: "n < 256" "n \<noteq> 32" and eq: "(word_of_nat n :: byte) = 0x20"
  from eq have "unat (word_of_nat n :: byte) = unat (0x20 :: byte)" by (rule arg_cong)
  with n show False by (simp add: unat_byte)
qed

lemma encode_code_point_no_space:
  assumes "encode_code_point c = Some bs" "c \<noteq> 32"
  shows "0x20 \<notin> set bs"
proof -
  have hi: "(word_of_nat (k + n) :: byte) \<noteq> 0x20" if "0x80 \<le> k" "k + n < 256" for k n
    by (rule byte_not_space) (use that in simp_all)
  consider (a) "c < 0x80" | (b) "0x80 \<le> c" "c < 0x800"
    | (c) "0x800 \<le> c" "c < 0x10000" "\<not> (0xD800 \<le> c \<and> c \<le> 0xDFFF)"
    | (d) "0x10000 \<le> c" "c < 0x110000"
    using assms by (auto simp: encode_code_point_def split: if_splits)
  then show ?thesis
  proof cases
    case a
    then have bs: "bs = [word_of_nat c]"
      using assms by (auto simp: encode_code_point_def split: if_splits)
    have "(word_of_nat c :: byte) \<noteq> 0x20" by (rule byte_not_space) (use a assms in simp_all)
    then show ?thesis unfolding bs by simp
  next
    case b
    then have bs: "bs = [word_of_nat (0xC0 + c div 64), word_of_nat (0x80 + c mod 64)]"
      using assms by (auto simp: encode_code_point_def split: if_splits)
    have h: "c div 64 < 32" using b by simp
    have "(word_of_nat (0xC0 + c div 64) :: byte) \<noteq> 0x20" by (rule hi) (use h in simp_all)
    moreover have "(word_of_nat (0x80 + c mod 64) :: byte) \<noteq> 0x20" by (rule hi) simp_all
    ultimately show ?thesis unfolding bs by simp
  next
    case c
    then have bs: "bs = [word_of_nat (0xE0 + c div 4096), word_of_nat (0x80 + c div 64 mod 64),
              word_of_nat (0x80 + c mod 64)]"
      using assms by (auto simp: encode_code_point_def split: if_splits)
    have h: "c div 4096 < 16" using c by simp
    have "(word_of_nat (0xE0 + c div 4096) :: byte) \<noteq> 0x20" by (rule hi) (use h in simp_all)
    moreover have "(word_of_nat (0x80 + c div 64 mod 64) :: byte) \<noteq> 0x20"
      by (rule hi) simp_all
    moreover have "(word_of_nat (0x80 + c mod 64) :: byte) \<noteq> 0x20" by (rule hi) simp_all
    ultimately show ?thesis unfolding bs by simp
  next
    case d
    then have bs: "bs = [word_of_nat (0xF0 + c div 262144), word_of_nat (0x80 + c div 4096 mod 64),
              word_of_nat (0x80 + c div 64 mod 64), word_of_nat (0x80 + c mod 64)]"
      using assms by (auto simp: encode_code_point_def split: if_splits)
    have h: "c div 262144 < 8" using d by simp
    have "(word_of_nat (0xF0 + c div 262144) :: byte) \<noteq> 0x20" by (rule hi) (use h in simp_all)
    moreover have "(word_of_nat (0x80 + c div 4096 mod 64) :: byte) \<noteq> 0x20"
      by (rule hi) simp_all
    moreover have "(word_of_nat (0x80 + c div 64 mod 64) :: byte) \<noteq> 0x20"
      by (rule hi) simp_all
    moreover have "(word_of_nat (0x80 + c mod 64) :: byte) \<noteq> 0x20" by (rule hi) simp_all
    ultimately show ?thesis unfolding bs by simp
  qed
qed

lemma str_encode_no_space:
  "str_encode p = Inr bs \<Longrightarrow> 32 \<notin> set p \<Longrightarrow> 0x20 \<notin> set bs"
proof (induction p arbitrary: bs)
  case Nil
  then show ?case by simp
next
  case (Cons c cs)
  from Cons.prems(1) obtain b rest where
    b: "encode_code_point c = Some b" and rest: "str_encode cs = Inr rest" and bs: "bs = b @ rest"
    by (auto split: option.splits sum.splits)
  from Cons.prems(2) have "c \<noteq> 32" "32 \<notin> set cs" by auto
  with Cons.IH [OF rest] encode_code_point_no_space [OF b] bs show ?case by simp
qed

lemma str_encode_defined:
  "(\<exists>bs. str_encode p = Inr bs) \<longleftrightarrow>
   list_all (\<lambda>c. c < 0x110000 \<and> \<not> (0xD800 \<le> c \<and> c \<le> 0xDFFF)) p"
proof (induction p)
  case Nil
  show ?case by simp
next
  case (Cons c cs)
  have "(\<exists>b. encode_code_point c = Some b) \<longleftrightarrow> c < 0x110000 \<and> \<not> (0xD800 \<le> c \<and> c \<le> 0xDFFF)"
    by (auto simp: encode_code_point_def)
  with Cons show ?case by (auto split: option.splits sum.splits)
qed

lemma str_encode_error: "str_encode p = Inl e \<Longrightarrow> e = UnicodeEncodeError"
  by (induction p) (auto split: option.splits sum.splits)

section \<open>Splitting and padding\<close>

lemma bytes_split_nonempty: "bytes_split sep bs \<noteq> []"
  by (induction bs) (auto split: list.splits)

lemma bytes_split_no_sep: "sep \<notin> set bs \<Longrightarrow> bytes_split sep bs = [bs]"
  by (induction bs) auto

lemma bytes_split_at_first:
  "sep \<notin> set a \<Longrightarrow> bytes_split sep (a @ sep # b) = a # bytes_split sep b"
  by (induction a) auto

lemma length_bytes_split: "length (bytes_split sep bs) = Suc (count_list bs sep)"
  by (induction bs) (auto split: list.splits simp: bytes_split_nonempty)

lemma count_list_0_iff: "count_list xs x = 0 \<longleftrightarrow> x \<notin> set xs"
  by (induction xs) auto

lemma length_get_random_bytes: "length (get_random_bytes rng n) = n"
  by (simp add: get_random_bytes_def)

lemma random_padding_16:
  "\<exists>padding. random_padding rng data 16 z = Inr (data @ padding)
      \<and> length padding = 16 - length data mod 16
      \<and> (z \<longrightarrow> padding = replicate (16 - length data mod 16) 0)
      \<and> (\<not> z \<longrightarrow> padding = get_random_bytes rng (16 - length data mod 16))"
  by (simp add: random_padding_def Let_def length_get_random_bytes)

lemma padded_length_16: "(n + (16 - n mod 16)) mod 16 = (0::nat)"
  by presburger

lemma decrypt_unfold:
  assumes "length aes_key = 32"
    and "cbc_decrypt aes_key
           (iv_used iv) data = Inr clear"
  shows "decrypt cbc_decrypt aes_key data iv =
           (case bytes_split 0x20 clear of
              [] \<Rightarrow> Inl ValueError_not_enough_values
            | [_] \<Rightarrow> Inl ValueError_not_enough_values
            | [clear', _] \<Rightarrow> bytes_decode clear'
            | _ \<Rightarrow> Inl ValueError_too_many_values)"
  using assms unfolding decrypt_def str_encode_default_iv
  by (cases iv) (simp_all add: iv_used_def default_iv_def)

lemma encrypt_unfold:
  assumes "length aes_key = 32" and "str_encode data = Inr bs"
  shows "encrypt cbc_encrypt rng aes_key data z iv =
           cbc_encrypt aes_key (iv_used iv)
             ((bs @ [0x20]) @ (if z then replicate (16 - length (bs @ [0x20]) mod 16) 0
                   else get_random_bytes rng (16 - length (bs @ [0x20]) mod 16)))"
  using assms(1) str_encode_add_space [OF assms(2)]
  unfolding encrypt_def str_encode_default_iv
  by (cases iv) (simp_all add: iv_used_def default_iv_def random_padding_def Let_def)

lemma decrypt_of_padded:
  assumes key: "length aes_key = 32"
    and dec: "cbc_decrypt aes_key (iv_used iv) c = Inr (seg @ 0x20 # padding)"
    and seg: "0x20 \<notin> set seg"
  shows "decrypt cbc_decrypt aes_key c iv =
           (if 0x20 \<in> set padding then Inl ValueError_too_many_values else bytes_decode seg)"
proof (cases "0x20 \<in> set padding")
  case False
  then show ?thesis
    using decrypt_unfold [where cbc_decrypt = cbc_decrypt and iv = iv, OF key dec] seg
    by (simp add: bytes_split_at_first bytes_split_no_sep)
next
  case True
  then have "count_list padding 0x20 \<noteq> 0" by (simp add: count_list_0_iff)
  then have "2 \<le> length (bytes_split 0x20 padding)" by (simp add: length_bytes_split)
  then obtain x y r where "bytes_split 0x20 padding = x # y # r"
    by (cases "bytes_split 0x20 padding" rule: list.exhaust; cases "tl (bytes_split 0x20 padding)") auto
  with True show ?thesis
    using decrypt_unfold [where cbc_decrypt = cbc_decrypt and iv = iv, OF key dec] seg
    by (simp add: bytes_split_at_first)
qed

lemma xor_cipher_inverse:
  assumes "length k = 32" "length iv = 16" "length d mod 16 = 0"
  shows "\<exists>c. xor_cipher k iv d = Inr c \<and> xor_cipher k iv c = Inr d \<and> length c = length d"
proof -
  have "map ((\<lambda>b. b XOR hd k) \<circ> (\<lambda>b. b XOR hd k)) d = d"
    by (induction d) (simp_all add: xor.assoc)
  with assms show ?thesis by (simp add: xor_cipher_def)
qed


lemma bytes_decode_error: "bytes_decode bs = Inl e \<Longrightarrow> e = UnicodeDecodeError"
proof (induction bs arbitrary: e rule: bytes_decode.induct)
  case (1 bs)
  from "1.prems" show ?case
    by (subst (asm) bytes_decode.simps)
       (auto split: if_splits option.splits sum.splits dest: "1.IH")
qed

lemma decrypt_no_space:
  assumes "length aes_key = 32"
    and "cbc_decrypt aes_key (iv_used iv) c = Inr clear"
    and "0x20 \<notin> set clear"
  shows "decrypt cbc_decrypt aes_key c iv = Inl ValueError_not_enough_values"
  using decrypt_unfold [where cbc_decrypt = cbc_decrypt and iv = iv, OF assms(1,2)] assms(3)
  by (simp add: bytes_split_no_sep)

lemma decrypt_Inr_D:
  assumes "decrypt cbc_decrypt aes_key data iv = Inr p"
  shows "\<exists>clear. cbc_decrypt aes_key (iv_used iv) data = Inr clear \<and> count_list clear 0x20 = 1"
proof -
  from assms have key: "length aes_key = 32"
    by (auto simp: decrypt_def split: if_splits)
  from assms key obtain clear where clear: "cbc_decrypt aes_key (iv_used iv) data = Inr clear"
    unfolding decrypt_def str_encode_default_iv
    by (cases iv) (auto simp: iv_used_def default_iv_def split: sum.splits)
  from assms decrypt_unfold [where cbc_decrypt = cbc_decrypt and iv = iv, OF key clear]
  have "length (bytes_split 0x20 clear) = 2"
    by (auto split: list.splits)
  then have "count_list clear 0x20 = 1" by (simp add: length_bytes_split)
  with clear show ?thesis by blast
qed

lemma decrypt_many_spaces:
  assumes "length aes_key = 32"
    and "cbc_decrypt aes_key (iv_used iv) data = Inr clear"
    and "2 \<le> count_list clear 0x20"
  shows "decrypt cbc_decrypt aes_key data iv = Inl ValueError_too_many_values"
proof -
  from assms(3) have "3 \<le> length (bytes_split 0x20 clear)" by (simp add: length_bytes_split)
  then obtain x y z r where "bytes_split 0x20 clear = x # y # z # r"
    by (cases "bytes_split 0x20 clear" rule: list.exhaust;
        cases "tl (bytes_split 0x20 clear)"; cases "tl (tl (bytes_split 0x20 clear))") auto
  with decrypt_unfold [where cbc_decrypt = cbc_decrypt and iv = iv, OF assms(1,2)]
  show ?thesis by simp
qed

section \<open>\<open>derive\<close>\<close>

lemma length_loop_le:
  "x < 256 ^ n \<Longrightarrow> length (int_to_string_loop x result) \<le> length result + n"
proof (induction n arbitrary: x result)
  case 0
  then show ?case by (simp add: int_to_string_loop_zero)
next
  case (Suc n)
  show ?case
  proof (cases "x = 0")
    case True
    then show ?thesis by (simp add: int_to_string_loop_zero)
  next
    case False
    from Suc.prems have "x div 256 < 256 ^ n" by (simp add: less_mult_imp_div_less mult.commute)
    from Suc.IH [OF this, of "result @ [word_of_nat (x mod 256)]"] False
    show ?thesis by (simp add: int_to_string_loop_step)
  qed
qed

lemma length_loop_ge: "length result \<le> length (int_to_string_loop x result)"
proof (induction x arbitrary: result rule: less_induct)
  case (less x)
  show ?case
  proof (cases "x = 0")
    case True
    then show ?thesis by (simp add: int_to_string_loop_zero)
  next
    case False
    then have "x div 256 < x" by simp
    from less.IH [OF this, of "result @ [word_of_nat (x mod 256)]"] False
    show ?thesis by (simp add: int_to_string_loop_step)
  qed
qed

lemma length_loop_gt:
  "256 ^ n \<le> x \<Longrightarrow> length result + n < length (int_to_string_loop x result)"
proof (induction n arbitrary: x result)
  case 0
  then have "x \<noteq> 0" by simp
  have "length (result @ [word_of_nat (x mod 256)]) \<le> length (int_to_string_loop x result)"
    using \<open>x \<noteq> 0\<close> length_loop_ge [of "result @ [word_of_nat (x mod 256)]" "x div 256"]
    by (simp add: int_to_string_loop_step)
  then show ?case by simp
next
  case (Suc n)
  have "x \<noteq> 0"
  proof
    assume "x = 0"
    with Suc.prems show False by simp
  qed
  from Suc.prems have "256 ^ n \<le> x div 256"
    by (simp add: less_eq_div_iff_mult_less_eq mult.commute)
  from Suc.IH [OF this, of "result @ [word_of_nat (x mod 256)]"] \<open>x \<noteq> 0\<close>
  show ?case by (simp add: int_to_string_loop_step)
qed

lemma int_to_string_length:
  assumes "0 \<le> v" "v < 2 ^ 256"
  shows "\<exists>ks. int_to_string v = Inr ks \<and> 1 \<le> length ks \<and> length ks \<le> 32
              \<and> (length ks = 32 \<longleftrightarrow> 2 ^ 248 \<le> v)"
proof (cases "v = 0")
  case True
  then show ?thesis by (simp add: int_to_string_def)
next
  case False
  with assms have pos: "nat v \<noteq> 0" by simp
  let ?l = "int_to_string_loop (nat v) []"
  have "nat v < 2 ^ 256" using assms by (simp add: nat_less_iff)
  then have "nat v < 256 ^ 32" by simp
  from length_loop_le [OF this, of "[]"] have up: "length ?l \<le> 32" by simp
  from loop_last_nonzero [OF pos, of "[]"] have lo: "1 \<le> length ?l"
    by (cases ?l) simp_all
  have iff: "length ?l = 32 \<longleftrightarrow> 2 ^ 248 \<le> v"
  proof
    assume l: "length ?l = 32"
    show "2 ^ 248 \<le> v"
    proof (rule ccontr)
      assume "\<not> 2 ^ 248 \<le> v"
      with assms have "nat v < 2 ^ 248" by (simp add: nat_less_iff)
      then have "nat v < 256 ^ 31" by simp
      from length_loop_le [OF this, of "[]"] l show False by simp
    qed
  next
    assume "2 ^ 248 \<le> v"
    then have "2 ^ 248 \<le> nat v" by (simp add: le_nat_iff)
    then have "256 ^ 31 \<le> nat v" by simp
    from length_loop_gt [OF this, of "[]"] up show "length ?l = 32" by simp
  qed
  from False assms up lo iff show ?thesis by (simp add: int_to_string_def)
qed

lemma hex_digit_encode:
  "d < 16 \<Longrightarrow> encode_code_point (hex_digit d) = Some [word_of_nat (hex_digit d)]"
  by (simp add: encode_code_point_def hex_digit_def)

lemma str_encode_hex: "str_encode (bytes_hex K) = Inr (map word_of_nat (bytes_hex K))"
proof (induction K)
  case Nil
  show ?case by (simp add: bytes_hex_def)
next
  case (Cons b K)
  have hi: "unat b div 16 < 16"
    using unsigned_less [of b, where 'a = nat] by (simp add: less_mult_imp_div_less)
  have lo: "unat b mod 16 < 16" by simp
  have "bytes_hex (b # K) = hex_digit (unat b div 16) # hex_digit (unat b mod 16) # bytes_hex K"
    by (simp add: bytes_hex_def)
  with Cons hex_digit_encode [OF hi] hex_digit_encode [OF lo] show ?case by simp
qed

lemma derive_unfold:
  assumes pub: "to_pubkey point self = Inr K"
    and enc: "str_encode s = Inr sb"
    and I: "I = hmac (drop 32 (seed self)) (map word_of_nat (bytes_hex K) @ sb)"
    and v: "v = (string_to_int (take 32 I) + string_to_int (take 32 (seed self))) mod FIELD_ORDER"
  shows "\<exists>ks. int_to_string v = Inr ks \<and> 1 \<le> length ks \<and> length ks \<le> 32
              \<and> (length ks = 32 \<longleftrightarrow> 2 ^ 248 \<le> v)
              \<and> derive point hmac self s = Inr \<lparr>seed = ks @ drop 32 I\<rparr>"
proof -
  have msg: "str_encode (bytes_hex K @ s) = Inr (map word_of_nat (bytes_hex K) @ sb)"
    by (rule str_encode_append [OF str_encode_hex enc])
  have "0 \<le> v" "v < 2 ^ 256" unfolding v FIELD_ORDER_def by simp_all
  from int_to_string_length [OF this] obtain ks where
    ks: "int_to_string v = Inr ks" "1 \<le> length ks" "length ks \<le> 32"
        "length ks = 32 \<longleftrightarrow> 2 ^ 248 \<le> v"
    by blast
  have "derive point hmac self s = Inr \<lparr>seed = ks @ drop 32 I\<rparr>"
    using pub msg ks(1) unfolding derive_def I v
    by (simp add: Let_def DerivableKey_init_def)
  with ks show ?thesis by blast
qed

text \<open>
  Past the public key and the encoding of the message \<open>derive\<close> has no failure of its own:
  whatever the digest is, the sum modulo \<open>2^256\<close> is not negative, \<open>int_to_string\<close> accepts
  it, and a child is returned. No value of the sum is checked for.
\<close>

lemma derive_returns_child:
  assumes "to_pubkey point self = Inr K" and "str_encode s = Inr sb"
  shows "\<exists>child. derive point hmac self s = Inr child"
  using derive_unfold [where point = point and hmac = hmac, OF assms refl refl] by blast

section \<open>The test vectors\<close>

lemma TEST_SEED_bytes:
  "TEST_SEED =
     [0x95, 0xA7, 0xEC, 0xB5, 0x6B, 0xDA, 0x5E, 0xBA, 0x80, 0x8E, 0xEC, 0x24,
      0x07, 0xB4, 0x18, 0x00, 0x2B, 0x82, 0x4C, 0x6C, 0x1C, 0xB1, 0x59, 0xEC,
      0x44, 0xB8, 0x37, 0x14, 0x05, 0x62, 0x9F, 0x84, 0x29, 0x41, 0x9E, 0x98,
      0xE1, 0xB6, 0x7F, 0xC6, 0x36, 0x73, 0x68, 0xF5, 0xD8, 0x28, 0x71, 0xA5,
      0x01, 0xBB, 0xC6, 0x55, 0xA6, 0x2D, 0x31, 0xE8, 0x39, 0x14, 0x11, 0xD7,
      0xA6, 0xE7, 0x4B, 0x86]"
  by code_simp

lemma TEST_PUBKEY_bytes:
  "bytes_fromhex TEST_PUBKEY_HEX =
     [0x04, 0x18, 0xB9, 0x90, 0x8D, 0x43, 0xF5, 0x03, 0xAE, 0x8E, 0xD3, 0x12,
      0x8C, 0x35, 0xED, 0xD8, 0xE0, 0xB9, 0x35, 0x0C, 0x01, 0xA3, 0x89, 0xBF,
      0x5D, 0x83, 0xAE, 0xCE, 0x48, 0x22, 0x72, 0x2B, 0x62, 0x23, 0xDB, 0xFA,
      0xEC, 0x15, 0x80, 0x12, 0x53, 0xD6, 0x58, 0x35, 0x68, 0x36, 0x80, 0x2A,
      0x43, 0xC4, 0x01, 0xFE, 0xD1, 0x41, 0x5A, 0x31, 0x2F, 0x1A, 0x09, 0xF5,
      0x2D, 0x96, 0xA5, 0x2A, 0xE4]"
  by code_simp

lemma TEST_PUBKEY_hex: "bytes_hex (bytes_fromhex TEST_PUBKEY_HEX) = map of_char TEST_PUBKEY_HEX"
  unfolding TEST_PUBKEY_bytes by code_simp

lemma test_pub: "to_pubkey test_point \<lparr>seed = TEST_SEED\<rparr> = Inr (bytes_fromhex TEST_PUBKEY_HEX)"
  by (simp add: to_pubkey_def test_point_def)

lemma ascii_encode: "map word_of_nat (map of_char cs) = ascii cs"
  by (simp add: ascii_def of_nat_of_char)

lemma test_message:
  "map word_of_nat (bytes_hex (bytes_fromhex TEST_PUBKEY_HEX)) @ ascii cs
   = ascii (TEST_PUBKEY_HEX @ cs)"
  by (simp add: TEST_PUBKEY_hex ascii_def of_nat_of_char)

lemma encode_address1:
  "str_encode (map of_char ''Bis_test_address1'') = Inr (ascii ''Bis_test_address1'')"
  by (simp add: encode_code_point_def ascii_def)

lemma encode_address66:
  "str_encode (map of_char ''Bis_test_address66'') = Inr (ascii ''Bis_test_address66'')"
  by (simp add: encode_code_point_def ascii_def)

lemma digest1:
  "test_hmac_sha512 (drop 32 (seed \<lparr>seed = TEST_SEED\<rparr>)) (ascii (TEST_PUBKEY_HEX @ ''Bis_test_address1''))
   = [0x30, 0x2C, 0x59, 0x82, 0x7F, 0x69, 0x51, 0x91, 0x79, 0x78, 0xCC, 0xAB,
      0x0A, 0xBE, 0xCA, 0x2D, 0x6A, 0x24, 0xF3, 0xA6, 0x50, 0x28, 0x87, 0xBF,
      0x2E, 0xAB, 0x4C, 0xFB, 0x0C, 0x27, 0xFF, 0x3B, 0x66, 0x71, 0xD0, 0x81,
      0xEA, 0x1F, 0x89, 0xF1, 0x3A, 0xAD, 0x09, 0xC1, 0xA9, 0x2D, 0xAB, 0xD6,
      0x2E, 0xB1, 0xC0, 0xE8, 0x1B, 0x70, 0x1F, 0x81, 0x16, 0xB7, 0x40, 0x1A,
      0x30, 0xA9, 0x88, 0x67]"
  by (simp add: test_hmac_sha512_def) code_simp

lemma digest66:
  "test_hmac_sha512 (drop 32 (seed \<lparr>seed = TEST_SEED\<rparr>)) (ascii (TEST_PUBKEY_HEX @ ''Bis_test_address66''))
   = [0x6A, 0x8B, 0xAA, 0xC2, 0x07, 0xE0, 0x1E, 0x90, 0xA2, 0x99, 0x44, 0x02,
      0xB4, 0x58, 0x8F, 0xFE, 0x24, 0xC2, 0x92, 0x06, 0x51, 0x4A, 0x6A, 0x93,
      0x55, 0x08, 0xD4, 0x6E, 0x96, 0x91, 0x7E, 0xD0, 0x1A, 0x82, 0x81, 0x19,
      0xF7, 0x2D, 0x3F, 0x7D, 0xBE, 0xAD, 0x5D, 0x7A, 0x3D, 0x00, 0x02, 0x24,
      0xED, 0xDC, 0x3D, 0x00, 0x88, 0x7D, 0x13, 0xB0, 0x78, 0x1C, 0xC9, 0x5E,
      0x80, 0xD0, 0x21, 0x93]"
  by (simp add: test_hmac_sha512_def ascii_def) code_simp

lemma test_scalar: "string_to_int (take 32 (seed \<lparr>seed = TEST_SEED\<rparr>)) = 67691311601971118807764295937417861422485525003941675236515097919481924722564"
  by (simp add: TEST_SEED_bytes string_to_int_def)

lemma sum1:
  "(string_to_int (take 32 [0x30, 0x2C, 0x59, 0x82, 0x7F, 0x69, 0x51, 0x91, 0x79, 0x78, 0xCC, 0xAB,
      0x0A, 0xBE, 0xCA, 0x2D, 0x6A, 0x24, 0xF3, 0xA6, 0x50, 0x28, 0x87, 0xBF,
      0x2E, 0xAB, 0x4C, 0xFB, 0x0C, 0x27, 0xFF, 0x3B, 0x66, 0x71, 0xD0, 0x81,
      0xEA, 0x1F, 0x89, 0xF1, 0x3A, 0xAD, 0x09, 0xC1, 0xA9, 0x2D, 0xAB, 0xD6,
      0x2E, 0xB1, 0xC0, 0xE8, 0x1B, 0x70, 0x1F, 0x81, 0x16, 0xB7, 0x40, 0x1A,
      0x30, 0xA9, 0x88, 0x67])
     + string_to_int (take 32 (seed \<lparr>seed = TEST_SEED\<rparr>))) mod FIELD_ORDER
   = 89480687378454072061622038354198911249783894198304052455427288321182420082367"
  unfolding test_scalar by (simp add: string_to_int_def FIELD_ORDER_def)

lemma sum66:
  "(string_to_int (take 32 [0x6A, 0x8B, 0xAA, 0xC2, 0x07, 0xE0, 0x1E, 0x90, 0xA2, 0x99, 0x44, 0x02,
      0xB4, 0x58, 0x8F, 0xFE, 0x24, 0xC2, 0x92, 0x06, 0x51, 0x4A, 0x6A, 0x93,
      0x55, 0x08, 0xD4, 0x6E, 0x96, 0x91, 0x7E, 0xD0, 0x1A, 0x82, 0x81, 0x19,
      0xF7, 0x2D, 0x3F, 0x7D, 0xBE, 0xAD, 0x5D, 0x7A, 0x3D, 0x00, 0x02, 0x24,
      0xED, 0xDC, 0x3D, 0x00, 0x88, 0x7D, 0x13, 0xB0, 0x78, 0x1C, 0xC9, 0x5E,
      0x80, 0xD0, 0x21, 0x93])
     + string_to_int (take 32 (seed \<lparr>seed = TEST_SEED\<rparr>))) mod FIELD_ORDER
   = 91154584423347209566508222333984045726709668985110819448756933292146826836"
  unfolding test_scalar by (simp add: string_to_int_def FIELD_ORDER_def)

lemma serial1:
  "int_to_string 89480687378454072061622038354198911249783894198304052455427288321182420082367
   = Inr [0xC5, 0xD4, 0x46, 0x37, 0xEB, 0x43, 0xB0, 0x4B, 0xFA, 0x07, 0xB8, 0xCF,
      0x12, 0x72, 0xE2, 0x2D, 0x95, 0xA7, 0x40, 0x12, 0x6C, 0xD9, 0xE1, 0xAB,
      0x73, 0x63, 0x84, 0x0F, 0x11, 0x8A, 0x9E, 0xBF]"
  by (simp add: int_to_string_def int_to_string_loop_step int_to_string_loop_zero)

lemma serial66:
  "int_to_string 91154584423347209566508222333984045726709668985110819448756933292146826836
   = Inr [0x33, 0x97, 0x77, 0x73, 0xBA, 0x7D, 0x4B, 0x23, 0x28, 0x30, 0x26, 0xBC,
      0x0C, 0xA7, 0xFE, 0x50, 0x44, 0xDE, 0x72, 0x6D, 0xFB, 0xC4, 0x7F, 0x99,
      0xC1, 0x0B, 0x82, 0x9B, 0xF4, 0x1E, 0x54]"
  by (simp add: int_to_string_def int_to_string_loop_step int_to_string_loop_zero)

lemma child1_bytes:
  "bytes_fromhex ''c5d44637eb43b04bfa07b8cf1272e22d95a740126cd9e1ab7363840f118a9ebf6671d081ea1f89f13aad09c1a92dabd62eb1c0e81b701f8116b7401a30a98867''
   = [0xC5, 0xD4, 0x46, 0x37, 0xEB, 0x43, 0xB0, 0x4B, 0xFA, 0x07, 0xB8, 0xCF,
      0x12, 0x72, 0xE2, 0x2D, 0x95, 0xA7, 0x40, 0x12, 0x6C, 0xD9, 0xE1, 0xAB,
      0x73, 0x63, 0x84, 0x0F, 0x11, 0x8A, 0x9E, 0xBF, 0x66, 0x71, 0xD0, 0x81,
      0xEA, 0x1F, 0x89, 0xF1, 0x3A, 0xAD, 0x09, 0xC1, 0xA9, 0x2D, 0xAB, 0xD6,
      0x2E, 0xB1, 0xC0, 0xE8, 0x1B, 0x70, 0x1F, 0x81, 0x16, 0xB7, 0x40, 0x1A,
      0x30, 0xA9, 0x88, 0x67]"
  by code_simp

lemma child66_bytes:
  "bytes_fromhex ''33977773ba7d4b23283026bc0ca7fe5044de726dfbc47f99c10b829bf41e541a828119f72d3f7dbead5d7a3d000224eddc3d00887d13b0781cc95e80d02193''
   = [0x33, 0x97, 0x77, 0x73, 0xBA, 0x7D, 0x4B, 0x23, 0x28, 0x30, 0x26, 0xBC,
      0x0C, 0xA7, 0xFE, 0x50, 0x44, 0xDE, 0x72, 0x6D, 0xFB, 0xC4, 0x7F, 0x99,
      0xC1, 0x0B, 0x82, 0x9B, 0xF4, 0x1E, 0x54, 0x1A, 0x82, 0x81, 0x19, 0xF7,
      0x2D, 0x3F, 0x7D, 0xBE, 0xAD, 0x5D, 0x7A, 0x3D, 0x00, 0x02, 0x24, 0xED,
      0xDC, 0x3D, 0x00, 0x88, 0x7D, 0x13, 0xB0, 0x78, 0x1C, 0xC9, 0x5E, 0x80,
      0xD0, 0x21, 0x93]"
  by code_simp

lemma digest1_raw:
  "test_hmac_sha512 (drop 32 (seed \<lparr>seed = TEST_SEED\<rparr>))
     (map word_of_nat (bytes_hex (bytes_fromhex TEST_PUBKEY_HEX)) @ ascii ''Bis_test_address1'')
   = [0x30, 0x2C, 0x59, 0x82, 0x7F, 0x69, 0x51, 0x91, 0x79, 0x78, 0xCC, 0xAB,
      0x0A, 0xBE, 0xCA, 0x2D, 0x6A, 0x24, 0xF3, 0xA6, 0x50, 0x28, 0x87, 0xBF,
      0x2E, 0xAB, 0x4C, 0xFB, 0x0C, 0x27, 0xFF, 0x3B, 0x66, 0x71, 0xD0, 0x81,
      0xEA, 0x1F, 0x89, 0xF1, 0x3A, 0xAD, 0x09, 0xC1, 0xA9, 0x2D, 0xAB, 0xD6,
      0x2E, 0xB1, 0xC0, 0xE8, 0x1B, 0x70, 0x1F, 0x81, 0x16, 0xB7, 0x40, 0x1A,
      0x30, 0xA9, 0x88, 0x67]"
  unfolding test_message by (rule digest1)

lemma digest66_raw:
  "test_hmac_sha512 (drop 32 (seed \<lparr>seed = TEST_SEED\<rparr>))
     (map word_of_nat (bytes_hex (bytes_fromhex TEST_PUBKEY_HEX)) @ ascii ''Bis_test_address66'')
   = [0x6A, 0x8B, 0xAA, 0xC2, 0x07, 0xE0, 0x1E, 0x90, 0xA2, 0x99, 0x44, 0x02,
      0xB4, 0x58, 0x8F, 0xFE, 0x24, 0xC2, 0x92, 0x06, 0x51, 0x4A, 0x6A, 0x93,
      0x55, 0x08, 0xD4, 0x6E, 0x96, 0x91, 0x7E, 0xD0, 0x1A, 0x82, 0x81, 0x19,
      0xF7, 0x2D, 0x3F, 0x7D, 0xBE, 0xAD, 0x5D, 0x7A, 0x3D, 0x00, 0x02, 0x24,
      0xED, 0xDC, 0x3D, 0x00, 0x88, 0x7D, 0x13, 0xB0, 0x78, 0x1C, 0xC9, 0x5E,
      0x80, 0xD0, 0x21, 0x93]"
  unfolding test_message by (rule digest66)

lemma derive_address1:
  "derive test_point test_hmac_sha512 \<lparr>seed = TEST_SEED\<rparr> (map of_char ''Bis_test_address1'')
     = Inr \<lparr>seed = bytes_fromhex
         ''c5d44637eb43b04bfa07b8cf1272e22d95a740126cd9e1ab7363840f118a9ebf6671d081ea1f89f13aad09c1a92dabd62eb1c0e81b701f8116b7401a30a98867''\<rparr>"
  using derive_unfold [where point = test_point and hmac = test_hmac_sha512,
      OF test_pub encode_address1 refl refl, unfolded digest1_raw, unfolded sum1,
      unfolded serial1]
  unfolding child1_bytes by auto

lemma derive_address66:
  "derive test_point test_hmac_sha512 \<lparr>seed = TEST_SEED\<rparr> (map of_char ''Bis_test_address66'')
     = Inr \<lparr>seed = bytes_fromhex
         ''33977773ba7d4b23283026bc0ca7fe5044de726dfbc47f99c10b829bf41e541a828119f72d3f7dbead5d7a3d000224eddc3d00887d13b0781cc95e80d02193''\<rparr>"
  using derive_unfold [where point = test_point and hmac = test_hmac_sha512,
      OF test_pub encode_address66 refl refl, unfolded digest66_raw, unfolded sum66,
      unfolded serial66]
  unfolding child66_bytes by auto

section \<open>\<open>encrypt\<close> and \<open>decrypt\<close>\<close>

text \<open>
  C3. For every 32-byte key \<open>k\<close> and every plaintext \<open>p\<close> without a space character,
  decrypting (same key, default IV) the result of \<open>encrypt\<close> with zero padding returns
  exactly \<open>p\<close>. The plaintext is one that \<open>encode('utf-8')\<close> accepts, with encoding \<open>bs\<close>
  (a \<open>str\<close> holding a lone surrogate has no encoding, and \<open>encrypt\<close> raises on it);
  the cipher is any pair of functions of which the second undoes the first on block-aligned
  data, as AES in CBC mode does.
\<close>

theorem encrypt_decrypt_roundtrip_zero_padding:
  assumes key: "length k = 32"
    and enc: "str_encode p = Inr bs"
    and nosp: "32 \<notin> set p"
    and cipher: "\<And>d. length d mod 16 = 0 \<Longrightarrow>
                  \<exists>c. cbc_encrypt k default_iv d = Inr c \<and> cbc_decrypt k default_iv c = Inr d"
  shows "\<exists>c. encrypt cbc_encrypt rng k p True None = Inr c
            \<and> decrypt cbc_decrypt k c None = Inr p"
proof -
  let ?padding = "replicate (16 - length (bs @ [0x20]) mod 16) (0::byte)"
  let ?padded = "(bs @ [0x20]) @ ?padding"
  have "length ?padded mod 16 = 0" using padded_length_16 [of "length (bs @ [0x20])"] by simp
  from cipher [OF this] obtain c where
    c: "cbc_encrypt k default_iv ?padded = Inr c" and d: "cbc_decrypt k default_iv c = Inr ?padded"
    by blast
  have "encrypt cbc_encrypt rng k p True None = Inr c"
    using encrypt_unfold [OF key enc, of cbc_encrypt rng True None] c
    by (simp add: iv_used_def)
  moreover have "decrypt cbc_decrypt k c None = Inr p"
  proof -
    have "cbc_decrypt k (iv_used None) c = Inr (bs @ 0x20 # ?padding)"
      using d by (simp add: iv_used_def)
    from decrypt_of_padded [where cbc_decrypt = cbc_decrypt and iv = None, OF key this str_encode_no_space [OF enc nosp]]
    show ?thesis by (simp add: bytes_decode_str_encode [OF enc])
  qed
  ultimately show ?thesis by blast
qed

theorem encrypt_decrypt_roundtrip_zero_padding_witness:
  "length (replicate 32 (7::byte)) = 32
   \<and> str_encode (map of_char ''yes'') = Inr [0x79, 0x65, 0x73]
   \<and> 32 \<notin> set (map of_char ''yes'' :: nat list)
   \<and> (\<exists>c. encrypt xor_cipher (\<lambda>i. 0) (replicate 32 7) (map of_char ''yes'') True None = Inr c
          \<and> decrypt xor_cipher (replicate 32 7) c None = Inr (map of_char ''yes''))"
proof -
  have enc: "str_encode (map of_char ''yes'') = Inr [0x79, 0x65, 0x73]"
    by (simp add: encode_code_point_def)
  have key: "length (replicate 32 (7::byte)) = 32" by simp
  have nosp: "32 \<notin> set (map of_char ''yes'' :: nat list)" by simp
  have cipher: "\<exists>c. xor_cipher (replicate 32 7) default_iv d = Inr c
                  \<and> xor_cipher (replicate 32 7) default_iv c = Inr d"
    if "length d mod 16 = 0" for d
    using xor_cipher_inverse [OF key _ that, of default_iv] by (auto simp: default_iv_def)
  from encrypt_decrypt_roundtrip_zero_padding
         [where cbc_encrypt = xor_cipher and cbc_decrypt = xor_cipher and rng = "\<lambda>i. 0",
          OF key enc nosp cipher]
    enc key nosp
  show ?thesis by blast
qed

text \<open>
  C10. \<open>decrypt\<close> returns normally only when the CBC-decrypted byte string holds exactly
  one space byte \<open>0x20\<close>; when it holds two or more, \<open>decrypt\<close> raises (the unpacking
  finds too many values) instead of returning the segment before the first space.
\<close>

theorem decrypt_exactly_one_space:
  "(decrypt cbc_decrypt k data iv = Inr p \<longrightarrow>
      (\<exists>clear. cbc_decrypt k (iv_used iv) data = Inr clear \<and> count_list clear 0x20 = 1))
   \<and> (length k = 32 \<and> cbc_decrypt k (iv_used iv) data = Inr clear' \<and> 2 \<le> count_list clear' 0x20
        \<longrightarrow> decrypt cbc_decrypt k data iv = Inl ValueError_too_many_values)"
  using decrypt_Inr_D [of cbc_decrypt k data iv p]
    decrypt_many_spaces [where cbc_decrypt = cbc_decrypt and iv = iv and aes_key = k
       and data = data and clear = clear']
  by blast

theorem decrypt_exactly_one_space_witness:
  "decrypt xor_cipher (replicate 32 7)
       [0x7E, 0x62, 0x74, 0x27, 7, 7, 7, 7, 7, 7, 7, 7, 7, 7, 7, 7] None = Inr (map of_char ''yes'')
   \<and> xor_cipher (replicate 32 7) (iv_used None)
       [0x7E, 0x62, 0x74, 0x27, 7, 7, 7, 7, 7, 7, 7, 7, 7, 7, 7, 7]
       = Inr [0x79, 0x65, 0x73, 0x20, 0, 0, 0, 0, 0, 0, 0, 0, 0, 0, 0, 0]
   \<and> count_list [0x79, 0x65, 0x73, 0x20, 0, 0, 0, 0, 0, 0, 0, 0, 0, 0, 0, 0 :: byte] 0x20 = 1
   \<and> length (replicate 32 (7::byte)) = 32
   \<and> xor_cipher (replicate 32 7) (iv_used None)
       [0x66, 0x27, 0x65, 0x27, 7, 7, 7, 7, 7, 7, 7, 7, 7, 7, 7, 7]
       = Inr [0x61, 0x20, 0x62, 0x20, 0, 0, 0, 0, 0, 0, 0, 0, 0, 0, 0, 0]
   \<and> 2 \<le> count_list [0x61, 0x20, 0x62, 0x20, 0, 0, 0, 0, 0, 0, 0, 0, 0, 0, 0, 0 :: byte] 0x20
   \<and> decrypt xor_cipher (replicate 32 7)
       [0x66, 0x27, 0x65, 0x27, 7, 7, 7, 7, 7, 7, 7, 7, 7, 7, 7, 7] None
       = Inl ValueError_too_many_values"
proof -
  let ?k = "replicate 32 (7::byte)"
  let ?d1 = "[0x7E, 0x62, 0x74, 0x27, 7, 7, 7, 7, 7, 7, 7, 7, 7, 7, 7, 7] :: bytes"
  let ?c1 = "[0x79, 0x65, 0x73, 0x20, 0, 0, 0, 0, 0, 0, 0, 0, 0, 0, 0, 0] :: bytes"
  let ?d2 = "[0x66, 0x27, 0x65, 0x27, 7, 7, 7, 7, 7, 7, 7, 7, 7, 7, 7, 7] :: bytes"
  let ?c2 = "[0x61, 0x20, 0x62, 0x20, 0, 0, 0, 0, 0, 0, 0, 0, 0, 0, 0, 0] :: bytes"
  have r1: "decrypt xor_cipher ?k ?d1 None = Inr (map of_char ''yes'')" by code_simp
  have x1: "xor_cipher ?k (iv_used None) ?d1 = Inr ?c1" by code_simp
  have x2: "xor_cipher ?k (iv_used None) ?d2 = Inr ?c2" by code_simp
  have n2: "2 \<le> count_list ?c2 0x20" by simp
  have key: "length ?k = 32" by simp
  from decrypt_exactly_one_space [of xor_cipher ?k ?d1 None "map of_char ''yes''"] r1 x1
  have n1: "count_list ?c1 0x20 = 1" by simp
  from decrypt_exactly_one_space [of xor_cipher ?k ?d2 None _ ?c2] key x2 n2
  have r2: "decrypt xor_cipher ?k ?d2 None = Inl ValueError_too_many_values" by blast
  from r1 x1 n1 key x2 n2 r2 show ?thesis by (intro conjI)
qed

text \<open>
  C7. For every 32-byte key, plaintext \<open>p\<close> (with UTF-8 encoding \<open>bs\<close>) and padding mode,
  the padding added is \<open>16 - len mod 16\<close> bytes, between 1 and 16, where \<open>len\<close> counts the
  encoding and the delimiter; the ciphertext has a length that is a multiple of 16 and at
  least \<open>len\<close>; and data that is already block-aligned still gets a full block of 16. The
  cipher is any function that, like CBC, returns as many bytes as it is given on
  block-aligned data.
\<close>

theorem encrypt_length:
  assumes key: "length k = 32"
    and enc: "str_encode p = Inr bs"
    and cipher: "\<And>d. length d mod 16 = 0 \<Longrightarrow>
                   \<exists>c. cbc_encrypt k (iv_used iv) d = Inr c \<and> length c = length d"
  shows "\<exists>padding c.
           random_padding rng (bs @ [0x20]) 16 z = Inr ((bs @ [0x20]) @ padding)
         \<and> length padding = 16 - length (bs @ [0x20]) mod 16
         \<and> 1 \<le> length padding \<and> length padding \<le> 16
         \<and> encrypt cbc_encrypt rng k p z iv = Inr c
         \<and> length c = length bs + 1 + length padding
         \<and> length c mod 16 = 0
         \<and> length bs + 1 \<le> length c
         \<and> ((length bs + 1) mod 16 = 0 \<longrightarrow> length padding = 16)"
proof -
  define data where "data = bs @ [0x20]"
  define padding where
    "padding = (if z then replicate (16 - length data mod 16) 0
                else get_random_bytes rng (16 - length data mod 16))"
  have len: "length padding = 16 - length (bs @ [0x20]) mod 16"
    by (simp add: padding_def data_def length_get_random_bytes)
  have pad: "random_padding rng (bs @ [0x20]) 16 z = Inr ((bs @ [0x20]) @ padding)"
    by (simp add: random_padding_def Let_def padding_def data_def)
  have aligned: "length (data @ padding) mod 16 = 0"
    using padded_length_16 [of "length data"] len by (simp add: data_def)
  from cipher [OF aligned] obtain c where
    c: "cbc_encrypt k (iv_used iv) (data @ padding) = Inr c"
    and lc: "length c = length (data @ padding)" by blast
  have "encrypt cbc_encrypt rng k p z iv = cbc_encrypt k (iv_used iv) (data @ padding)"
    unfolding padding_def data_def by (rule encrypt_unfold [OF key enc])
  with c have e: "encrypt cbc_encrypt rng k p z iv = Inr c" by simp
  have lo: "1 \<le> length padding" and hi: "length padding \<le> 16"
    unfolding len by simp_all
  have full: "(length bs + 1) mod 16 = 0 \<longrightarrow> length padding = 16"
    unfolding len by simp
  have lc': "length c = length bs + 1 + length padding" using lc by (simp add: data_def)
  have m: "length c mod 16 = 0" using lc aligned by simp
  have ge: "length bs + 1 \<le> length c" using lc' by simp
  show ?thesis
    by (intro exI [of _ padding] exI [of _ c] conjI pad len lo hi e lc' m ge full)
qed

theorem encrypt_length_witness:
  "length (replicate 32 (7::byte)) = 32
   \<and> str_encode (map of_char ''abcdefghijklmno'')
       = Inr [0x61, 0x62, 0x63, 0x64, 0x65, 0x66, 0x67, 0x68, 0x69, 0x6A, 0x6B, 0x6C, 0x6D,
              0x6E, 0x6F]
   \<and> (\<exists>c. encrypt xor_cipher (\<lambda>i. 0xC5) (replicate 32 7) (map of_char ''abcdefghijklmno'')
               False None = Inr c
          \<and> length c = 32)"
proof -
  let ?k = "replicate 32 (7::byte)"
  let ?bs = "[0x61, 0x62, 0x63, 0x64, 0x65, 0x66, 0x67, 0x68, 0x69, 0x6A, 0x6B, 0x6C, 0x6D,
              0x6E, 0x6F] :: bytes"
  have key: "length ?k = 32" by simp
  have enc: "str_encode (map of_char ''abcdefghijklmno'') = Inr ?bs"
    by (simp add: encode_code_point_def)
  have cipher: "\<exists>c. xor_cipher ?k (iv_used None) d = Inr c \<and> length c = length d"
    if "length d mod 16 = 0" for d
    using xor_cipher_inverse [OF key _ that, of "iv_used None"]
    by (auto simp: iv_used_def default_iv_def)
  from encrypt_length [where cbc_encrypt = xor_cipher and iv = None and rng = "\<lambda>i. 0xC5"
      and z = False, OF key enc cipher]
  have "\<exists>c. encrypt xor_cipher (\<lambda>i. 0xC5) ?k (map of_char ''abcdefghijklmno'') False None = Inr c
      \<and> length c = 32" by auto
  with key enc show ?thesis by blast
qed

text \<open>
  C8. When no IV is passed, \<open>encrypt\<close> and \<open>decrypt\<close> both work with the same fixed IV, the
  16 bytes that encode the ASCII text \<open>Bismuth BGVP IV.\<close> in UTF-8: for a 32-byte key and
  a plaintext with encoding \<open>bs\<close>, \<open>encrypt\<close> hands exactly these bytes to the cipher,
  together with the key and the padded data, and returns what the cipher returns;
  \<open>decrypt\<close> hands them to the cipher with the key and the ciphertext, and unpacks what
  the cipher returns. Both calls equal the calls that pass these bytes explicitly.
\<close>

theorem default_iv_is_fixed_constant:
  assumes key: "length k = 32"
    and enc: "str_encode p = Inr bs"
  shows "encrypt cbc_encrypt rng k p z None =
           cbc_encrypt k default_iv
             ((bs @ [0x20]) @ (if z then replicate (16 - length (bs @ [0x20]) mod 16) 0
                   else get_random_bytes rng (16 - length (bs @ [0x20]) mod 16)))
         \<and> decrypt cbc_decrypt k c None =
           (case cbc_decrypt k default_iv c of
              Inl e \<Rightarrow> Inl e
            | Inr clear \<Rightarrow>
                (case bytes_split 0x20 clear of
                   [] \<Rightarrow> Inl ValueError_not_enough_values
                 | [_] \<Rightarrow> Inl ValueError_not_enough_values
                 | [clear', _] \<Rightarrow> bytes_decode clear'
                 | _ \<Rightarrow> Inl ValueError_too_many_values))
         \<and> encrypt cbc_encrypt rng k p z None = encrypt cbc_encrypt rng k p z (Some default_iv)
         \<and> decrypt cbc_decrypt k c None = decrypt cbc_decrypt k c (Some default_iv)
         \<and> default_iv = ascii ''Bismuth BGVP IV.''
         \<and> str_encode (map of_char ''Bismuth BGVP IV.'') = Inr default_iv
         \<and> length default_iv = 16"
proof -
  have e: "encrypt cbc_encrypt rng k p z None =
           cbc_encrypt k default_iv
             ((bs @ [0x20]) @ (if z then replicate (16 - length (bs @ [0x20]) mod 16) 0
                   else get_random_bytes rng (16 - length (bs @ [0x20]) mod 16)))"
    using encrypt_unfold [OF key enc, of cbc_encrypt rng z None] by (simp add: iv_used_def)
  have d: "decrypt cbc_decrypt k c None =
           (case cbc_decrypt k default_iv c of
              Inl e \<Rightarrow> Inl e
            | Inr clear \<Rightarrow>
                (case bytes_split 0x20 clear of
                   [] \<Rightarrow> Inl ValueError_not_enough_values
                 | [_] \<Rightarrow> Inl ValueError_not_enough_values
                 | [clear', _] \<Rightarrow> bytes_decode clear'
                 | _ \<Rightarrow> Inl ValueError_too_many_values))"
    using key unfolding decrypt_def str_encode_default_iv default_iv_def by simp
  have e': "encrypt cbc_encrypt rng k p z None = encrypt cbc_encrypt rng k p z (Some default_iv)"
    using encrypt_unfold [OF key enc, of cbc_encrypt rng z None]
      encrypt_unfold [OF key enc, of cbc_encrypt rng z "Some default_iv"]
    by (simp add: iv_used_def)
  have d': "decrypt cbc_decrypt k c None = decrypt cbc_decrypt k c (Some default_iv)"
    unfolding decrypt_def str_encode_default_iv default_iv_def by (simp split: sum.splits)
  have a: "default_iv = ascii ''Bismuth BGVP IV.''"
    by (simp add: default_iv_def ascii_def)
  have s: "str_encode (map of_char ''Bismuth BGVP IV.'') = Inr default_iv"
    unfolding str_encode_default_iv default_iv_def by simp
  have l: "length default_iv = 16" by (simp add: default_iv_def)
  show ?thesis by (intro conjI e d e' d' a s l)
qed

text \<open>
  An example with ciphers that show the IV they are handed: one that returns the IV in front
  of the data, and one that refuses every IV but the fixed one.
\<close>

theorem default_iv_is_fixed_constant_witness:
  "length (replicate 32 (7::byte)) = 32
   \<and> str_encode (map of_char ''yes'') = Inr [0x79, 0x65, 0x73]
   \<and> encrypt (\<lambda>key iv data. Inr (iv @ data)) (\<lambda>i. 0) (replicate 32 7) (map of_char ''yes'')
         True None
       = Inr (ascii ''Bismuth BGVP IV.''
              @ [0x79, 0x65, 0x73, 0x20, 0, 0, 0, 0, 0, 0, 0, 0, 0, 0, 0, 0])
   \<and> decrypt (\<lambda>key iv data. if iv = ascii ''Bismuth BGVP IV.'' then Inr data else Inl ValueError)
         (replicate 32 7) [0x79, 0x65, 0x73, 0x20, 0, 0, 0, 0, 0, 0, 0, 0, 0, 0, 0, 0] None
       = Inr (map of_char ''yes'')"
proof -
  let ?k = "replicate 32 (7::byte)"
  let ?show = "\<lambda>(key::bytes) (iv::bytes) (data::bytes). Inr (iv @ data) :: error + bytes"
  let ?only = "\<lambda>(key::bytes) (iv::bytes) (data::bytes).
                 if iv = ascii ''Bismuth BGVP IV.'' then Inr data else Inl ValueError :: error + bytes"
  let ?c = "[0x79, 0x65, 0x73, 0x20, 0, 0, 0, 0, 0, 0, 0, 0, 0, 0, 0, 0] :: bytes"
  have key: "length ?k = 32" by simp
  have enc: "str_encode (map of_char ''yes'') = Inr [0x79, 0x65, 0x73]"
    by (simp add: encode_code_point_def)
  note t = default_iv_is_fixed_constant [where cbc_encrypt = ?show and cbc_decrypt = ?only
      and rng = "\<lambda>i. 0" and z = True and c = ?c, OF key enc]
  have iv: "default_iv = ascii ''Bismuth BGVP IV.''"
    by (rule t [THEN conjunct2, THEN conjunct2, THEN conjunct2, THEN conjunct2, THEN conjunct1])
  have padded: "([0x79, 0x65, 0x73] @ [0x20 :: byte])
      @ (if True then replicate (16 - length ([0x79, 0x65, 0x73] @ [0x20 :: byte]) mod 16) 0
         else get_random_bytes (\<lambda>i. 0) (16 - length ([0x79, 0x65, 0x73] @ [0x20 :: byte]) mod 16))
      = ?c"
    by code_simp
  from t [THEN conjunct1]
  have "encrypt ?show (\<lambda>i. 0) ?k (map of_char ''yes'') True None = Inr (default_iv @ ?c)"
    by (simp only: padded)
  then have e: "encrypt ?show (\<lambda>i. 0) ?k (map of_char ''yes'') True None
                = Inr (ascii ''Bismuth BGVP IV.'' @ ?c)"
    by (simp only: iv)
  have pieces: "bytes_split 0x20 ?c = [[0x79, 0x65, 0x73], [0, 0, 0, 0, 0, 0, 0, 0, 0, 0, 0, 0]]"
    by simp
  have plain: "bytes_decode [0x79, 0x65, 0x73] = Inr (map of_char ''yes'')" by code_simp
  from t [THEN conjunct2, THEN conjunct1]
  have "decrypt ?only ?k ?c None =
          (case Inr ?c of
              Inl e \<Rightarrow> Inl e
            | Inr clear \<Rightarrow>
                (case bytes_split 0x20 clear of
                   [] \<Rightarrow> Inl ValueError_not_enough_values
                 | [_] \<Rightarrow> Inl ValueError_not_enough_values
                 | [clear', _] \<Rightarrow> bytes_decode clear'
                 | _ \<Rightarrow> Inl ValueError_too_many_values))"
    by (simp only: iv if_True refl)
  then have d: "decrypt ?only ?k ?c None = Inr (map of_char ''yes'')"
    by (simp only: sum.case pieces list.case plain)
  from key enc e d show ?thesis by (intro conjI)
qed

text \<open>
  C4. The specification says that the round trip returns the plaintext with random padding
  too, whatever bytes are drawn. In the code \<open>decrypt\<close> splits at every space byte and
  unpacks exactly two pieces: whenever the drawn padding holds a byte \<open>0x20\<close>, \<open>decrypt\<close>
  raises on the ciphertext that \<open>encrypt\<close> returned.
\<close>

theorem random_padding_space_breaks_roundtrip:
  assumes key: "length k = 32"
    and enc: "str_encode p = Inr bs"
    and nosp: "32 \<notin> set p"
    and cipher: "\<And>d. length d mod 16 = 0 \<Longrightarrow>
                  \<exists>c. cbc_encrypt k default_iv d = Inr c \<and> cbc_decrypt k default_iv c = Inr d"
    and hit: "0x20 \<in> set (get_random_bytes rng (16 - length (bs @ [0x20]) mod 16))"
  shows "\<exists>c. encrypt cbc_encrypt rng k p False None = Inr c
            \<and> decrypt cbc_decrypt k c None = Inl ValueError_too_many_values"
proof -
  define padding where "padding = get_random_bytes rng (16 - length (bs @ [0x20]) mod 16)"
  have "length ((bs @ [0x20]) @ padding) mod 16 = 0"
    using padded_length_16 [of "length (bs @ [0x20])"]
    by (simp add: padding_def length_get_random_bytes)
  from cipher [OF this] obtain c where
    c: "cbc_encrypt k default_iv ((bs @ [0x20]) @ padding) = Inr c"
    and d: "cbc_decrypt k default_iv c = Inr ((bs @ [0x20]) @ padding)"
    by blast
  have "encrypt cbc_encrypt rng k p False None = Inr c"
    using encrypt_unfold [OF key enc, of cbc_encrypt rng False None] c
    by (simp add: iv_used_def padding_def)
  moreover have "decrypt cbc_decrypt k c None = Inl ValueError_too_many_values"
  proof -
    have "cbc_decrypt k (iv_used None) c = Inr (bs @ 0x20 # padding)"
      using d by (simp add: iv_used_def)
    from decrypt_of_padded [where cbc_decrypt = cbc_decrypt and iv = None, OF key this
        str_encode_no_space [OF enc nosp]] hit
    show ?thesis by (simp add: padding_def)
  qed
  ultimately show ?thesis by blast
qed

theorem random_padding_space_breaks_roundtrip_witness:
  "length (replicate 32 (7::byte)) = 32
   \<and> str_encode (map of_char ''yes'') = Inr [0x79, 0x65, 0x73]
   \<and> 32 \<notin> set (map of_char ''yes'' :: nat list)
   \<and> get_random_bytes (\<lambda>i. if i = 3 then 0x20 else 0xC5) (16 - length [0x79, 0x65, 0x73, 0x20 :: byte] mod 16)
       = [0xC5, 0xC5, 0xC5, 0x20, 0xC5, 0xC5, 0xC5, 0xC5, 0xC5, 0xC5, 0xC5, 0xC5]
   \<and> encrypt xor_cipher (\<lambda>i. if i = 3 then 0x20 else 0xC5) (replicate 32 7)
         (map of_char ''yes'') False None
       = Inr [0x7E, 0x62, 0x74, 0x27, 0xC2, 0xC2, 0xC2, 0x27, 0xC2, 0xC2, 0xC2, 0xC2, 0xC2, 0xC2,
              0xC2, 0xC2]
   \<and> decrypt xor_cipher (replicate 32 7)
         [0x7E, 0x62, 0x74, 0x27, 0xC2, 0xC2, 0xC2, 0x27, 0xC2, 0xC2, 0xC2, 0xC2, 0xC2, 0xC2,
          0xC2, 0xC2] None
       = Inl ValueError_too_many_values"
proof -
  let ?k = "replicate 32 (7::byte)"
  let ?rng = "\<lambda>i::nat. if i = 3 then 0x20 else 0xC5 :: byte"
  let ?ct = "[0x7E, 0x62, 0x74, 0x27, 0xC2, 0xC2, 0xC2, 0x27, 0xC2, 0xC2, 0xC2, 0xC2, 0xC2, 0xC2,
              0xC2, 0xC2] :: bytes"
  have key: "length ?k = 32" by simp
  have enc: "str_encode (map of_char ''yes'') = Inr [0x79, 0x65, 0x73]"
    by (simp add: encode_code_point_def)
  have nosp: "32 \<notin> set (map of_char ''yes'' :: nat list)" by simp
  have draw: "get_random_bytes ?rng (16 - length [0x79, 0x65, 0x73, 0x20 :: byte] mod 16)
       = [0xC5, 0xC5, 0xC5, 0x20, 0xC5, 0xC5, 0xC5, 0xC5, 0xC5, 0xC5, 0xC5, 0xC5]"
    by code_simp
  then have hit: "0x20 \<in> set (get_random_bytes ?rng (16 - length ([0x79, 0x65, 0x73] @ [0x20 :: byte]) mod 16))"
    by simp
  have cipher: "\<exists>c. xor_cipher ?k default_iv d = Inr c \<and> xor_cipher ?k default_iv c = Inr d"
    if "length d mod 16 = 0" for d
    using xor_cipher_inverse [OF key _ that, of default_iv] by (auto simp: default_iv_def)
  have e: "encrypt xor_cipher ?rng ?k (map of_char ''yes'') False None = Inr ?ct"
    by code_simp
  from random_padding_space_breaks_roundtrip
         [where cbc_encrypt = xor_cipher and cbc_decrypt = xor_cipher and rng = ?rng,
          OF key enc nosp cipher hit] e
  have "decrypt xor_cipher ?k ?ct None = Inl ValueError_too_many_values" by auto
  with key enc nosp draw e show ?thesis by (intro conjI)
qed

text \<open>
  C5. The specification says that \<open>decrypt\<close> splits the decrypted bytes at the first space
  byte and decodes the segment before it. In the code, when a later byte is a space too,
  \<open>decrypt\<close> raises: the result is neither the decoding of that segment nor the decoder's
  own error.
\<close>

theorem decrypt_raises_when_padding_holds_space:
  assumes key: "length k = 32"
    and dec: "cbc_decrypt k (iv_used iv) data = Inr (seg @ 0x20 # rest)"
    and seg: "0x20 \<notin> set seg"
    and hit: "0x20 \<in> set rest"
  shows "decrypt cbc_decrypt k data iv = Inl ValueError_too_many_values
         \<and> decrypt cbc_decrypt k data iv \<noteq> bytes_decode seg"
proof -
  have r: "decrypt cbc_decrypt k data iv = Inl ValueError_too_many_values"
    using decrypt_of_padded [where cbc_decrypt = cbc_decrypt and iv = iv, OF key dec seg] hit
    by simp
  have "bytes_decode seg \<noteq> Inl ValueError_too_many_values"
    using bytes_decode_error [of seg ValueError_too_many_values] by auto
  with r show ?thesis by simp
qed

theorem decrypt_raises_when_padding_holds_space_witness:
  "length (replicate 32 (7::byte)) = 32
   \<and> xor_cipher (replicate 32 7) (iv_used None)
         [0x7E, 0x62, 0x74, 0x27, 0xC2, 0xC2, 0xC2, 0x27, 0xC2, 0xC2, 0xC2, 0xC2, 0xC2, 0xC2,
          0xC2, 0xC2]
       = Inr ([0x79, 0x65, 0x73] @ 0x20
              # [0xC5, 0xC5, 0xC5, 0x20, 0xC5, 0xC5, 0xC5, 0xC5, 0xC5, 0xC5, 0xC5, 0xC5])
   \<and> bytes_decode [0x79, 0x65, 0x73] = Inr (map of_char ''yes'')
   \<and> decrypt xor_cipher (replicate 32 7)
         [0x7E, 0x62, 0x74, 0x27, 0xC2, 0xC2, 0xC2, 0x27, 0xC2, 0xC2, 0xC2, 0xC2, 0xC2, 0xC2,
          0xC2, 0xC2] None
       = Inl ValueError_too_many_values"
proof -
  let ?k = "replicate 32 (7::byte)"
  let ?ct = "[0x7E, 0x62, 0x74, 0x27, 0xC2, 0xC2, 0xC2, 0x27, 0xC2, 0xC2, 0xC2, 0xC2, 0xC2, 0xC2,
              0xC2, 0xC2] :: bytes"
  let ?seg = "[0x79, 0x65, 0x73] :: bytes"
  let ?rest = "[0xC5, 0xC5, 0xC5, 0x20, 0xC5, 0xC5, 0xC5, 0xC5, 0xC5, 0xC5, 0xC5, 0xC5] :: bytes"
  have key: "length ?k = 32" by simp
  have dec: "xor_cipher ?k (iv_used None) ?ct = Inr (?seg @ 0x20 # ?rest)" by code_simp
  have seg: "0x20 \<notin> set ?seg" by simp
  have hit: "0x20 \<in> set ?rest" by simp
  have plain: "bytes_decode ?seg = Inr (map of_char ''yes'')" by code_simp
  from decrypt_raises_when_padding_holds_space
         [where cbc_decrypt = xor_cipher and iv = None, OF key dec seg hit]
  have "decrypt xor_cipher ?k ?ct None = Inl ValueError_too_many_values" by simp
  with key dec plain show ?thesis by (intro conjI)
qed

section \<open>The derived child\<close>

text \<open>
  In the theorems of this section the parent key has a public key \<open>K\<close>, the context \<open>s\<close>
  has a UTF-8 encoding \<open>sb\<close>, \<open>I\<close> is the digest, keyed with the parent's seed bytes from
  32 on, of the hexadecimal text of \<open>K\<close> followed by \<open>sb\<close>, and \<open>v\<close> is the sum of the
  numbers that \<open>I[0:32]\<close> and the parent's seed bytes 0..32 denote, modulo \<open>2^256\<close>.
\<close>

text \<open>
  C1. The specification says that \<open>derive\<close> computes \<open>I\<close> as above and returns a child
  whose scalar (seed bytes 0..32) is the big-endian serialization of \<open>v\<close> and whose chain
  code (seed bytes from 32 on) is \<open>I[32:64]\<close>. In the code the child's seed is
  \<open>int_to_string v\<close> followed by \<open>I[32:64]\<close>, and \<open>int_to_string\<close> drops leading zero
  bytes: the child is as specified when \<open>v \<ge> 2^248\<close>, and when \<open>v < 2^248\<close> neither its
  scalar nor its chain code is.
\<close>

theorem derive_child:
  assumes pub: "to_pubkey point self = Inr K"
    and enc: "str_encode s = Inr sb"
    and I: "I = hmac (drop 32 (seed self)) (map word_of_nat (bytes_hex K) @ sb)"
    and len: "length I = 64"
    and v: "v = (string_to_int (take 32 I) + string_to_int (take 32 (seed self))) mod FIELD_ORDER"
  shows "\<exists>ks child.
           int_to_string v = Inr ks
         \<and> derive point hmac self s = Inr child
         \<and> seed child = ks @ drop 32 I
         \<and> (2 ^ 248 \<le> v \<longrightarrow> take 32 (seed child) = ks \<and> drop 32 (seed child) = drop 32 I)
         \<and> (v < 2 ^ 248 \<longrightarrow> take 32 (seed child) \<noteq> ks \<and> drop 32 (seed child) \<noteq> drop 32 I)"
proof -
  from derive_unfold [where hmac = hmac and point = point, OF pub enc I v] obtain ks where
    ks: "int_to_string v = Inr ks" "1 \<le> length ks" "length ks \<le> 32"
        "length ks = 32 \<longleftrightarrow> 2 ^ 248 \<le> v"
    and d: "derive point hmac self s = Inr \<lparr>seed = ks @ drop 32 I\<rparr>"
    by blast
  let ?child = "\<lparr>seed = ks @ drop 32 I\<rparr>"
  have full: "take 32 (seed ?child) = ks \<and> drop 32 (seed ?child) = drop 32 I" if "2 ^ 248 \<le> v"
    using that ks(4) by simp
  have short: "take 32 (seed ?child) \<noteq> ks \<and> drop 32 (seed ?child) \<noteq> drop 32 I" if "v < 2 ^ 248"
  proof -
    from that ks(3,4) have l: "length ks < 32" by auto
    have "length (take 32 (seed ?child)) = 32" using len l by simp
    with l have a: "take 32 (seed ?child) \<noteq> ks" by auto
    have "length (drop 32 (seed ?child)) = length ks" using len l by simp
    moreover have "length (drop 32 I) = 32" using len by simp
    ultimately have "length (drop 32 (seed ?child)) \<noteq> length (drop 32 I)"
      using l by linarith
    then have "drop 32 (seed ?child) \<noteq> drop 32 I" by (rule contrapos_nn) (rule arg_cong)
    with a show ?thesis by simp
  qed
  show ?thesis
    by (intro exI [of _ ks] exI [of _ ?child] conjI impI ks(1) d)
       (use full short in simp_all)
qed

theorem derive_child_witness:
  "derive test_point test_hmac_sha512 \<lparr>seed = TEST_SEED\<rparr> (map of_char ''Bis_test_address1'')
     = Inr \<lparr>seed = bytes_fromhex
         ''c5d44637eb43b04bfa07b8cf1272e22d95a740126cd9e1ab7363840f118a9ebf6671d081ea1f89f13aad09c1a92dabd62eb1c0e81b701f8116b7401a30a98867''\<rparr>
   \<and> int_to_string 89480687378454072061622038354198911249783894198304052455427288321182420082367
     = Inr (take 32 (bytes_fromhex
         ''c5d44637eb43b04bfa07b8cf1272e22d95a740126cd9e1ab7363840f118a9ebf6671d081ea1f89f13aad09c1a92dabd62eb1c0e81b701f8116b7401a30a98867''))
   \<and> drop 32 (bytes_fromhex
         ''c5d44637eb43b04bfa07b8cf1272e22d95a740126cd9e1ab7363840f118a9ebf6671d081ea1f89f13aad09c1a92dabd62eb1c0e81b701f8116b7401a30a98867'')
     = drop 32 [0x30, 0x2C, 0x59, 0x82, 0x7F, 0x69, 0x51, 0x91, 0x79, 0x78, 0xCC, 0xAB,
      0x0A, 0xBE, 0xCA, 0x2D, 0x6A, 0x24, 0xF3, 0xA6, 0x50, 0x28, 0x87, 0xBF,
      0x2E, 0xAB, 0x4C, 0xFB, 0x0C, 0x27, 0xFF, 0x3B, 0x66, 0x71, 0xD0, 0x81,
      0xEA, 0x1F, 0x89, 0xF1, 0x3A, 0xAD, 0x09, 0xC1, 0xA9, 0x2D, 0xAB, 0xD6,
      0x2E, 0xB1, 0xC0, 0xE8, 0x1B, 0x70, 0x1F, 0x81, 0x16, 0xB7, 0x40, 0x1A,
      0x30, 0xA9, 0x88, 0x67]
   \<and> derive test_point test_hmac_sha512 \<lparr>seed = TEST_SEED\<rparr> (map of_char ''Bis_test_address66'')
     = Inr \<lparr>seed = bytes_fromhex
         ''33977773ba7d4b23283026bc0ca7fe5044de726dfbc47f99c10b829bf41e541a828119f72d3f7dbead5d7a3d000224eddc3d00887d13b0781cc95e80d02193''\<rparr>
   \<and> int_to_string 91154584423347209566508222333984045726709668985110819448756933292146826836
     = Inr [0x33, 0x97, 0x77, 0x73, 0xBA, 0x7D, 0x4B, 0x23, 0x28, 0x30, 0x26, 0xBC,
      0x0C, 0xA7, 0xFE, 0x50, 0x44, 0xDE, 0x72, 0x6D, 0xFB, 0xC4, 0x7F, 0x99,
      0xC1, 0x0B, 0x82, 0x9B, 0xF4, 0x1E, 0x54]
   \<and> take 32 (bytes_fromhex
         ''33977773ba7d4b23283026bc0ca7fe5044de726dfbc47f99c10b829bf41e541a828119f72d3f7dbead5d7a3d000224eddc3d00887d13b0781cc95e80d02193'')
     \<noteq> [0x33, 0x97, 0x77, 0x73, 0xBA, 0x7D, 0x4B, 0x23, 0x28, 0x30, 0x26, 0xBC,
      0x0C, 0xA7, 0xFE, 0x50, 0x44, 0xDE, 0x72, 0x6D, 0xFB, 0xC4, 0x7F, 0x99,
      0xC1, 0x0B, 0x82, 0x9B, 0xF4, 0x1E, 0x54]
   \<and> drop 32 (bytes_fromhex
         ''33977773ba7d4b23283026bc0ca7fe5044de726dfbc47f99c10b829bf41e541a828119f72d3f7dbead5d7a3d000224eddc3d00887d13b0781cc95e80d02193'')
     \<noteq> drop 32 [0x6A, 0x8B, 0xAA, 0xC2, 0x07, 0xE0, 0x1E, 0x90, 0xA2, 0x99, 0x44, 0x02,
      0xB4, 0x58, 0x8F, 0xFE, 0x24, 0xC2, 0x92, 0x06, 0x51, 0x4A, 0x6A, 0x93,
      0x55, 0x08, 0xD4, 0x6E, 0x96, 0x91, 0x7E, 0xD0, 0x1A, 0x82, 0x81, 0x19,
      0xF7, 0x2D, 0x3F, 0x7D, 0xBE, 0xAD, 0x5D, 0x7A, 0x3D, 0x00, 0x02, 0x24,
      0xED, 0xDC, 0x3D, 0x00, 0x88, 0x7D, 0x13, 0xB0, 0x78, 0x1C, 0xC9, 0x5E,
      0x80, 0xD0, 0x21, 0x93]"
proof -
  have len1: "length (test_hmac_sha512 (drop 32 (seed \<lparr>seed = TEST_SEED\<rparr>))
     (map word_of_nat (bytes_hex (bytes_fromhex TEST_PUBKEY_HEX)) @ ascii ''Bis_test_address1''))
     = 64"
    unfolding digest1_raw by simp
  have len66: "length (test_hmac_sha512 (drop 32 (seed \<lparr>seed = TEST_SEED\<rparr>))
     (map word_of_nat (bytes_hex (bytes_fromhex TEST_PUBKEY_HEX)) @ ascii ''Bis_test_address66''))
     = 64"
    unfolding digest66_raw by simp
  note a = derive_child [where point = test_point and hmac = test_hmac_sha512,
      OF test_pub encode_address1 refl len1 refl, unfolded digest1_raw, unfolded sum1,
      unfolded derive_address1]
  note b = derive_child [where point = test_point and hmac = test_hmac_sha512,
      OF test_pub encode_address66 refl len66 refl, unfolded digest66_raw, unfolded sum66,
      unfolded derive_address66]
  from a have full: "int_to_string 89480687378454072061622038354198911249783894198304052455427288321182420082367
     = Inr (take 32 (bytes_fromhex
         ''c5d44637eb43b04bfa07b8cf1272e22d95a740126cd9e1ab7363840f118a9ebf6671d081ea1f89f13aad09c1a92dabd62eb1c0e81b701f8116b7401a30a98867''))
   \<and> drop 32 (bytes_fromhex
         ''c5d44637eb43b04bfa07b8cf1272e22d95a740126cd9e1ab7363840f118a9ebf6671d081ea1f89f13aad09c1a92dabd62eb1c0e81b701f8116b7401a30a98867'')
     = drop 32 [0x30, 0x2C, 0x59, 0x82, 0x7F, 0x69, 0x51, 0x91, 0x79, 0x78, 0xCC, 0xAB,
      0x0A, 0xBE, 0xCA, 0x2D, 0x6A, 0x24, 0xF3, 0xA6, 0x50, 0x28, 0x87, 0xBF,
      0x2E, 0xAB, 0x4C, 0xFB, 0x0C, 0x27, 0xFF, 0x3B, 0x66, 0x71, 0xD0, 0x81,
      0xEA, 0x1F, 0x89, 0xF1, 0x3A, 0xAD, 0x09, 0xC1, 0xA9, 0x2D, 0xAB, 0xD6,
      0x2E, 0xB1, 0xC0, 0xE8, 0x1B, 0x70, 0x1F, 0x81, 0x16, 0xB7, 0x40, 0x1A,
      0x30, 0xA9, 0x88, 0x67]"
    by auto
  from b have short: "int_to_string 91154584423347209566508222333984045726709668985110819448756933292146826836
     = Inr [0x33, 0x97, 0x77, 0x73, 0xBA, 0x7D, 0x4B, 0x23, 0x28, 0x30, 0x26, 0xBC,
      0x0C, 0xA7, 0xFE, 0x50, 0x44, 0xDE, 0x72, 0x6D, 0xFB, 0xC4, 0x7F, 0x99,
      0xC1, 0x0B, 0x82, 0x9B, 0xF4, 0x1E, 0x54]
   \<and> take 32 (bytes_fromhex
         ''33977773ba7d4b23283026bc0ca7fe5044de726dfbc47f99c10b829bf41e541a828119f72d3f7dbead5d7a3d000224eddc3d00887d13b0781cc95e80d02193'')
     \<noteq> [0x33, 0x97, 0x77, 0x73, 0xBA, 0x7D, 0x4B, 0x23, 0x28, 0x30, 0x26, 0xBC,
      0x0C, 0xA7, 0xFE, 0x50, 0x44, 0xDE, 0x72, 0x6D, 0xFB, 0xC4, 0x7F, 0x99,
      0xC1, 0x0B, 0x82, 0x9B, 0xF4, 0x1E, 0x54]
   \<and> drop 32 (bytes_fromhex
         ''33977773ba7d4b23283026bc0ca7fe5044de726dfbc47f99c10b829bf41e541a828119f72d3f7dbead5d7a3d000224eddc3d00887d13b0781cc95e80d02193'')
     \<noteq> drop 32 [0x6A, 0x8B, 0xAA, 0xC2, 0x07, 0xE0, 0x1E, 0x90, 0xA2, 0x99, 0x44, 0x02,
      0xB4, 0x58, 0x8F, 0xFE, 0x24, 0xC2, 0x92, 0x06, 0x51, 0x4A, 0x6A, 0x93,
      0x55, 0x08, 0xD4, 0x6E, 0x96, 0x91, 0x7E, 0xD0, 0x1A, 0x82, 0x81, 0x19,
      0xF7, 0x2D, 0x3F, 0x7D, 0xBE, 0xAD, 0x5D, 0x7A, 0x3D, 0x00, 0x02, 0x24,
      0xED, 0xDC, 0x3D, 0x00, 0x88, 0x7D, 0x13, 0xB0, 0x78, 0x1C, 0xC9, 0x5E,
      0x80, 0xD0, 0x21, 0x93]"
    unfolding serial66 by auto
  from derive_address1 full derive_address66 short show ?thesis by (intro conjI) simp_all
qed

text \<open>
  C2. The specification says that the seed of a derived child is exactly 64 bytes long. In
  the code it has between 33 and 64 bytes, and 64 exactly when \<open>v \<ge> 2^248\<close>.
\<close>

theorem derive_seed_length:
  assumes pub: "to_pubkey point self = Inr K"
    and enc: "str_encode s = Inr sb"
    and I: "I = hmac (drop 32 (seed self)) (map word_of_nat (bytes_hex K) @ sb)"
    and len: "length I = 64"
    and v: "v = (string_to_int (take 32 I) + string_to_int (take 32 (seed self))) mod FIELD_ORDER"
  shows "\<exists>child. derive point hmac self s = Inr child
           \<and> 33 \<le> length (seed child) \<and> length (seed child) \<le> 64
           \<and> (length (seed child) = 64 \<longleftrightarrow> 2 ^ 248 \<le> v)"
proof -
  from derive_unfold [where hmac = hmac and point = point, OF pub enc I v] obtain ks where
    ks: "1 \<le> length ks" "length ks \<le> 32" "length ks = 32 \<longleftrightarrow> 2 ^ 248 \<le> v"
    and d: "derive point hmac self s = Inr \<lparr>seed = ks @ drop 32 I\<rparr>"
    by blast
  have "length (seed \<lparr>seed = ks @ drop 32 I\<rparr>) = length ks + 32" using len by simp
  with ks d show ?thesis by auto
qed

theorem derive_seed_length_witness:
  "derive test_point test_hmac_sha512 \<lparr>seed = TEST_SEED\<rparr> (map of_char ''Bis_test_address66'')
     = Inr \<lparr>seed = bytes_fromhex
         ''33977773ba7d4b23283026bc0ca7fe5044de726dfbc47f99c10b829bf41e541a828119f72d3f7dbead5d7a3d000224eddc3d00887d13b0781cc95e80d02193''\<rparr>
   \<and> length (bytes_fromhex
         ''33977773ba7d4b23283026bc0ca7fe5044de726dfbc47f99c10b829bf41e541a828119f72d3f7dbead5d7a3d000224eddc3d00887d13b0781cc95e80d02193'')
     = 63
   \<and> derive test_point test_hmac_sha512 \<lparr>seed = TEST_SEED\<rparr> (map of_char ''Bis_test_address1'')
     = Inr \<lparr>seed = bytes_fromhex
         ''c5d44637eb43b04bfa07b8cf1272e22d95a740126cd9e1ab7363840f118a9ebf6671d081ea1f89f13aad09c1a92dabd62eb1c0e81b701f8116b7401a30a98867''\<rparr>
   \<and> length (bytes_fromhex
         ''c5d44637eb43b04bfa07b8cf1272e22d95a740126cd9e1ab7363840f118a9ebf6671d081ea1f89f13aad09c1a92dabd62eb1c0e81b701f8116b7401a30a98867'')
     = 64"
proof -
  have len1: "length (test_hmac_sha512 (drop 32 (seed \<lparr>seed = TEST_SEED\<rparr>))
     (map word_of_nat (bytes_hex (bytes_fromhex TEST_PUBKEY_HEX)) @ ascii ''Bis_test_address1''))
     = 64"
    unfolding digest1_raw by simp
  have len66: "length (test_hmac_sha512 (drop 32 (seed \<lparr>seed = TEST_SEED\<rparr>))
     (map word_of_nat (bytes_hex (bytes_fromhex TEST_PUBKEY_HEX)) @ ascii ''Bis_test_address66''))
     = 64"
    unfolding digest66_raw by simp
  note a = derive_seed_length [where point = test_point and hmac = test_hmac_sha512,
      OF test_pub encode_address1 refl len1 refl, unfolded digest1_raw, unfolded sum1,
      unfolded derive_address1]
  note b = derive_seed_length [where point = test_point and hmac = test_hmac_sha512,
      OF test_pub encode_address66 refl len66 refl, unfolded digest66_raw, unfolded sum66,
      unfolded derive_address66]
  from a have l1: "length (bytes_fromhex
         ''c5d44637eb43b04bfa07b8cf1272e22d95a740126cd9e1ab7363840f118a9ebf6671d081ea1f89f13aad09c1a92dabd62eb1c0e81b701f8116b7401a30a98867'')
     = 64"
    by auto
  have l66: "length (bytes_fromhex
         ''33977773ba7d4b23283026bc0ca7fe5044de726dfbc47f99c10b829bf41e541a828119f72d3f7dbead5d7a3d000224eddc3d00887d13b0781cc95e80d02193'')
     = 63"
    using b unfolding child66_bytes by simp
  from derive_address66 l66 derive_address1 l1 show ?thesis by (intro conjI)
qed


end
